theory Spec2Isabelle
  imports Main "HOL-Library.Multiset" "HOL-Library.Word"
begin

section \<open>Data model of the hash table (engines/ep/src/hash\_table.cc)\<close>

text \<open>
  The model is sequential: a stripe lock is a token (\<open>htLock\<close>) carried by the bucket
  handle, and every operation runs to completion. Exceptions are values; an exceptional
  result carries the table as it was when the exception left the operation.
\<close>

datatype CommittedState =
  CommittedViaMutation | CommittedViaPrepare | Pending | PreparedMaybeVisible

datatype MutationStatus =
  NotFound | InvalidCas | WasClean | WasDirty | IsLocked | NoMem | NeedBgFetch
  | IsPendingSyncWrite

datatype DeletionStatus = DeletionSuccess | DeletionIsPendingSyncWrite

datatype EvictionPolicy = Value | Full

datatype DeleteSource = Explicit | TTL

datatype TrackReference = TrackReferenceYes | TrackReferenceNo

datatype WantsDeleted = WantsDeletedYes | WantsDeletedNo

text \<open>
  \<open>logic_error\<close> and \<open>invalid_argument\<close> are the two C++ exceptions the file throws
  (\<open>std::invalid_argument\<close> derives from \<open>std::logic_error\<close>); \<open>expects_failure\<close> is a
  failed \<open>Expects(...)\<close>; \<open>undefined_behaviour\<close> stands for an out-of-range vector
  access, a null or dangling pointer dereference or a division by zero.
\<close>

datatype error = logic_error | invalid_argument | expects_failure | undefined_behaviour

fun is_logic_error :: "error \<Rightarrow> bool" where
  "is_logic_error logic_error = True"
| "is_logic_error invalid_argument = True"
| "is_logic_error expects_failure = False"
| "is_logic_error undefined_behaviour = False"

record DocKey =
  collectionID :: nat
  keyBytes :: string

record Item =
  item_key :: DocKey
  item_value :: string
  item_cas :: nat
  item_revSeqno :: nat
  item_flags :: nat
  item_exptime :: nat
  item_datatype :: nat
  item_committed :: CommittedState
  item_deleted :: bool

record StoredValue =
  key :: DocKey
  valueBytes :: "string option"
  cas :: nat
  revSeqno :: nat
  bySeqno :: int
  flags :: nat
  exptime :: nat
  datatype_bits :: nat
  committed :: CommittedState
  deleted :: bool
  deleteSource :: DeleteSource
  resident :: bool
  dirty :: bool
  tempItem :: bool
  newCacheItem :: bool
  freqCounter :: "8 word"

fun pendingState :: "CommittedState \<Rightarrow> bool" where
  "pendingState Pending = True"
| "pendingState PreparedMaybeVisible = True"
| "pendingState CommittedViaMutation = False"
| "pendingState CommittedViaPrepare = False"

definition isPending :: "StoredValue \<Rightarrow> bool" where
  "isPending v = pendingState (committed v)"

definition isPreparedMaybeVisible :: "StoredValue \<Rightarrow> bool" where
  "isPreparedMaybeVisible v = (committed v = PreparedMaybeVisible)"

definition hasKey :: "StoredValue \<Rightarrow> DocKey \<Rightarrow> bool" where
  "hasKey v k = (key v = k)"

definition Item_isPending :: "Item \<Rightarrow> bool" where
  "Item_isPending itm = pendingState (item_committed itm)"

definition Item_isCommitted :: "Item \<Rightarrow> bool" where
  "Item_isCommitted itm = (\<not> pendingState (item_committed itm))"

text \<open>
  Code of the repository that hash\_table.cc calls but that is not part of the sources at
  hand (stored-value.h, item.h, the factory, the probabilistic counter) is a parameter of
  the model: one record of functions, named after the C++ members they stand for.
  \<open>generateValue\<close> is one draw of \<open>ProbabilisticCounter::generateValue\<close>;
  \<open>memorySize\<close> is \<open>HashTable::memorySize()\<close> as a function of the bucket count.
\<close>

record Externals =
  DocKey_hash :: "DocKey \<Rightarrow> nat"
  CollectionID_isSystem :: "nat \<Rightarrow> bool"
  SV_size :: "StoredValue \<Rightarrow> int"
  SV_metaDataSize :: "StoredValue \<Rightarrow> int"
  SV_uncompressedSize :: "StoredValue \<Rightarrow> int"
  SV_setValue :: "StoredValue \<Rightarrow> Item \<Rightarrow> StoredValue"
  SV_markDeleted :: "StoredValue \<Rightarrow> DeleteSource \<Rightarrow> StoredValue"
  SV_del :: "StoredValue \<Rightarrow> DeleteSource \<Rightarrow> StoredValue"
  SV_markNotResident :: "StoredValue \<Rightarrow> StoredValue"
  SV_ejectValue :: "StoredValue \<Rightarrow> StoredValue"
  SV_referenced :: "StoredValue \<Rightarrow> StoredValue"
  SV_restoreValue :: "StoredValue \<Rightarrow> Item \<Rightarrow> StoredValue"
  SV_restoreMeta :: "StoredValue \<Rightarrow> Item \<Rightarrow> StoredValue"
  SV_eligibleForEviction :: "StoredValue \<Rightarrow> EvictionPolicy \<Rightarrow> bool"
  valFact :: "Item \<Rightarrow> StoredValue"
  generateValue :: "8 word \<Rightarrow> 8 word"
  memorySize :: "nat \<Rightarrow> int"

subsection \<open>Statistics: prologue and epilogue\<close>

record StoredValueProperties =
  pSize :: int
  pMetaDataSize :: int
  pUncompressedSize :: int
  pDatatype :: nat
  pIsValid :: bool
  pIsResident :: bool
  pIsDeleted :: bool
  pIsTempItem :: bool
  pIsSystemItem :: bool
  pIsPreparedSyncWrite :: bool

record EPStats =
  currentSize :: int
  memOverhead :: int
  numFailedEjects :: nat
  numValueEjects :: nat

text \<open>
  The counters are atomics of the absent header; the model keeps them as integers and
  \<open>fetch_add\<close> as addition. \<open>epStats\<close> is the \<open>EPStats\<close> object that \<open>Statistics\<close> and the
  table both refer to; the model keeps it once, here.
\<close>

record Statistics =
  cacheSize :: int
  memSize :: int
  metaDataMemory :: int
  uncompressedMemSize :: int
  numNonResidentItems :: int
  numTempItems :: int
  numItems :: int
  numSystemItems :: int
  numPreparedSyncWrites :: int
  numDeletedItems :: int
  datatypeCounts :: "nat \<Rightarrow> int"
  epStats :: EPStats

text \<open>
  Modelled from the spec: the default-constructed \<open>StoredValueProperties\<close> (its member
  initialisers are in the absent hash\_table.h): "no such value", every category
  predicate false and every size zero.
\<close>

definition defaultProperties :: StoredValueProperties where
  "defaultProperties =
     \<lparr> pSize = 0, pMetaDataSize = 0, pUncompressedSize = 0, pDatatype = 0,
       pIsValid = False, pIsResident = False, pIsDeleted = False, pIsTempItem = False,
       pIsSystemItem = False, pIsPreparedSyncWrite = False \<rparr>"

text \<open>The constructor \<open>StoredValueProperties(const StoredValue* sv)\<close>; \<open>None\<close> is nullptr.\<close>

fun mkStoredValueProperties :: "Externals \<Rightarrow> StoredValue option \<Rightarrow> StoredValueProperties" where
  "mkStoredValueProperties x None = defaultProperties"
| "mkStoredValueProperties x (Some sv) =
     \<lparr> pSize = SV_size x sv,
       pMetaDataSize = SV_metaDataSize x sv,
       pUncompressedSize = SV_uncompressedSize x sv,
       pDatatype = datatype_bits sv,
       pIsValid = True,
       pIsResident = resident sv,
       pIsDeleted = deleted sv,
       pIsTempItem = tempItem sv,
       pIsSystemItem = CollectionID_isSystem x (collectionID (key sv)),
       pIsPreparedSyncWrite = isPending sv \<rparr>"

definition prologue :: "Externals \<Rightarrow> StoredValue option \<Rightarrow> StoredValueProperties" where
  "prologue x v = mkStoredValueProperties x v"

text \<open>
  \<open>post - pre\<close> on two C++ bools: both are promoted to \<open>int\<close> before the subtraction.
\<close>

definition boolDelta :: "bool \<Rightarrow> bool \<Rightarrow> int" where
  "boolDelta pre post = (if post then 1 else 0) - (if pre then 1 else 0)"

text \<open>
  The body of \<open>Statistics::epilogue\<close>, one definition for each of its blocks, in the
  order of the source.
\<close>

definition epilogue_size :: "StoredValueProperties \<Rightarrow> StoredValueProperties \<Rightarrow> Statistics \<Rightarrow> Statistics" where
  "epilogue_size pre post st =
     (if pSize pre \<noteq> pSize post
      then st\<lparr> cacheSize := cacheSize st + (pSize post - pSize pre),
               memSize := memSize st + (pSize post - pSize pre) \<rparr>
      else st)"

definition epilogue_metaDataSize :: "StoredValueProperties \<Rightarrow> StoredValueProperties \<Rightarrow> Statistics \<Rightarrow> Statistics" where
  "epilogue_metaDataSize pre post st =
     (if pMetaDataSize pre \<noteq> pMetaDataSize post
      then st\<lparr> metaDataMemory := metaDataMemory st + (pMetaDataSize post - pMetaDataSize pre),
               epStats := (epStats st)\<lparr> currentSize :=
                 currentSize (epStats st) + (pMetaDataSize post - pMetaDataSize pre) \<rparr> \<rparr>
      else st)"

definition epilogue_uncompressedSize :: "StoredValueProperties \<Rightarrow> StoredValueProperties \<Rightarrow> Statistics \<Rightarrow> Statistics" where
  "epilogue_uncompressedSize pre post st =
     (if pUncompressedSize pre \<noteq> pUncompressedSize post
      then st\<lparr> uncompressedMemSize :=
                 uncompressedMemSize st + (pUncompressedSize post - pUncompressedSize pre) \<rparr>
      else st)"

definition epilogue_nonResident :: "StoredValueProperties \<Rightarrow> StoredValueProperties \<Rightarrow> Statistics \<Rightarrow> Statistics" where
  "epilogue_nonResident pre post st =
     (let preNonResident = pIsValid pre \<and> (\<not> pIsResident pre \<and> \<not> pIsDeleted pre \<and> \<not> pIsTempItem pre);
          postNonResident = pIsValid post \<and> (\<not> pIsResident post \<and> \<not> pIsDeleted post \<and> \<not> pIsTempItem post)
      in if preNonResident \<noteq> postNonResident
         then st\<lparr> numNonResidentItems :=
                    numNonResidentItems st + boolDelta preNonResident postNonResident \<rparr>
         else st)"

definition epilogue_tempItems :: "StoredValueProperties \<Rightarrow> StoredValueProperties \<Rightarrow> Statistics \<Rightarrow> Statistics" where
  "epilogue_tempItems pre post st =
     (if pIsTempItem pre \<noteq> pIsTempItem post
      then st\<lparr> numTempItems := numTempItems st + boolDelta (pIsTempItem pre) (pIsTempItem post) \<rparr>
      else st)"

definition epilogue_numItems :: "StoredValueProperties \<Rightarrow> StoredValueProperties \<Rightarrow> Statistics \<Rightarrow> Statistics" where
  "epilogue_numItems pre post st =
     (let preNonTemp = pIsValid pre \<and> \<not> pIsTempItem pre;
          postNonTemp = pIsValid post \<and> \<not> pIsTempItem post
      in if preNonTemp \<noteq> postNonTemp
         then st\<lparr> numItems := numItems st + boolDelta preNonTemp postNonTemp \<rparr>
         else st)"

definition epilogue_systemItems :: "StoredValueProperties \<Rightarrow> StoredValueProperties \<Rightarrow> Statistics \<Rightarrow> Statistics" where
  "epilogue_systemItems pre post st =
     (if pIsSystemItem pre \<noteq> pIsSystemItem post
      then st\<lparr> numSystemItems :=
                 numSystemItems st + boolDelta (pIsSystemItem pre) (pIsSystemItem post) \<rparr>
      else st)"

definition epilogue_prepared :: "StoredValueProperties \<Rightarrow> StoredValueProperties \<Rightarrow> Statistics \<Rightarrow> Statistics" where
  "epilogue_prepared pre post st =
     (let prePrepared = pIsValid pre \<and> pIsPreparedSyncWrite pre;
          postPrepared = pIsValid post \<and> pIsPreparedSyncWrite post
      in if prePrepared \<noteq> postPrepared
         then st\<lparr> numPreparedSyncWrites :=
                    numPreparedSyncWrites st + boolDelta prePrepared postPrepared \<rparr>
         else st)"

definition epilogue_deleted :: "StoredValueProperties \<Rightarrow> StoredValueProperties \<Rightarrow> Statistics \<Rightarrow> Statistics" where
  "epilogue_deleted pre post st =
     (let preDeleted = pIsDeleted pre \<and> \<not> pIsSystemItem pre \<and> \<not> pIsPreparedSyncWrite pre;
          postDeleted = pIsDeleted post \<and> \<not> pIsSystemItem post \<and> \<not> pIsPreparedSyncWrite post
      in if preDeleted \<noteq> postDeleted
         then st\<lparr> numDeletedItems := numDeletedItems st + boolDelta preDeleted postDeleted \<rparr>
         else st)"

definition epilogue_datatype_pre :: "StoredValueProperties \<Rightarrow> Statistics \<Rightarrow> Statistics" where
  "epilogue_datatype_pre pre st =
     (let preNonTemp = pIsValid pre \<and> \<not> pIsTempItem pre
      in if preNonTemp \<and> \<not> pIsDeleted pre \<and> \<not> pIsPreparedSyncWrite pre
         then st\<lparr> datatypeCounts := (datatypeCounts st)
                    (pDatatype pre := datatypeCounts st (pDatatype pre) - 1) \<rparr>
         else st)"

definition epilogue_datatype_post :: "StoredValueProperties \<Rightarrow> Statistics \<Rightarrow> Statistics" where
  "epilogue_datatype_post post st =
     (let postNonTemp = pIsValid post \<and> \<not> pIsTempItem post
      in if postNonTemp \<and> \<not> pIsDeleted post \<and> \<not> pIsPreparedSyncWrite post
         then st\<lparr> datatypeCounts := (datatypeCounts st)
                    (pDatatype post := datatypeCounts st (pDatatype post) + 1) \<rparr>
         else st)"

definition epilogue ::
  "Externals \<Rightarrow> StoredValueProperties \<Rightarrow> StoredValue option \<Rightarrow> Statistics \<Rightarrow> Statistics" where
  "epilogue x pre v st =
    (let post = mkStoredValueProperties x v
     in epilogue_datatype_post post
       (epilogue_datatype_pre pre
       (epilogue_deleted pre post
       (epilogue_prepared pre post
       (epilogue_systemItems pre post
       (epilogue_numItems pre post
       (epilogue_tempItems pre post
       (epilogue_nonResident pre post
       (epilogue_uncompressedSize pre post
       (epilogue_metaDataSize pre post
       (epilogue_size pre post st)))))))))))"

subsection \<open>The table\<close>

text \<open>
  A bucket chain is the list of its StoredValues from the head. A \<open>StoredValue*\<close> is the
  place it points to: bucket number and position in the chain (\<open>None\<close> is nullptr).
\<close>

type_synonym svptr = "nat \<times> nat"

record HashBucketLock =
  htLock :: bool
  bucketNum :: nat

record HashTable =
  initialSize :: nat
  ht_size :: nat
  ht_values :: "StoredValue list list"
  mutexes :: nat
  visitors :: nat
  valueStats :: Statistics
  numEjects :: nat
  numResizes :: nat
  maxDeletedRevSeqno :: nat
  activeState :: bool
  frequencyCounterSaturated :: nat

type_synonym 'a result = "(error \<times> HashTable) + ('a \<times> HashTable)"

definition newStatistics :: "EPStats \<Rightarrow> Statistics" where
  "newStatistics st =
     \<lparr> cacheSize = 0, memSize = 0, metaDataMemory = 0, uncompressedMemSize = 0,
       numNonResidentItems = 0, numTempItems = 0, numItems = 0, numSystemItems = 0,
       numPreparedSyncWrites = 0, numDeletedItems = 0, datatypeCounts = (\<lambda>_. 0),
       epStats = st \<rparr>"

text \<open>The constructor \<open>HashTable(st, svFactory, initialSize, locks)\<close>.\<close>

definition newHashTable :: "EPStats \<Rightarrow> nat \<Rightarrow> nat \<Rightarrow> HashTable" where
  "newHashTable st initSize locks =
     \<lparr> initialSize = initSize, ht_size = initSize, ht_values = replicate initSize [],
       mutexes = locks, visitors = 0, valueStats = newStatistics st, numEjects = 0,
       numResizes = 0, maxDeletedRevSeqno = 0, activeState = True,
       frequencyCounterSaturated = 0 \<rparr>"

definition INT_MAX :: nat where
  "INT_MAX = 2147483647"

text \<open>
  Modelled from the spec: \<open>getBucketForHash\<close> (absent hash\_table.h), "key.hash mod size";
  with no bucket at all the division has no result.
\<close>

definition getBucketForHash :: "nat \<Rightarrow> nat \<Rightarrow> nat option" where
  "getBucketForHash sz h = (if sz = 0 then None else Some (h mod sz))"

text \<open>
  Modelled from the spec: \<open>getLockedBucket(key)\<close> (absent hash\_table.h) computes the bucket
  of the key's hash and returns the handle holding that bucket's stripe lock.
\<close>

definition getLockedBucket :: "Externals \<Rightarrow> HashTable \<Rightarrow> DocKey \<Rightarrow> HashBucketLock option" where
  "getLockedBucket x ht k =
     map_option (\<lambda>b. \<lparr> htLock = True, bucketNum = b \<rparr>)
       (getBucketForHash (ht_size ht) (DocKey_hash x k))"

definition deref :: "HashTable \<Rightarrow> svptr \<Rightarrow> StoredValue option" where
  "deref ht p =
     (if fst p < length (ht_values ht) \<and> snd p < length (ht_values ht ! fst p)
      then Some (ht_values ht ! fst p ! snd p) else None)"

definition storeSV :: "HashTable \<Rightarrow> svptr \<Rightarrow> StoredValue \<Rightarrow> HashTable" where
  "storeSV ht p v =
     ht\<lparr> ht_values := (ht_values ht)[fst p := (ht_values ht ! fst p)[snd p := v]] \<rparr>"

text \<open>Reading through a reference; a dangling one is undefined behaviour.\<close>

definition withSV :: "HashTable \<Rightarrow> svptr \<Rightarrow> (StoredValue \<Rightarrow> 'a result) \<Rightarrow> 'a result" where
  "withSV ht p f =
     (case deref ht p of None \<Rightarrow> Inl (undefined_behaviour, ht) | Some v \<Rightarrow> f v)"

definition updateStats ::
  "Externals \<Rightarrow> StoredValueProperties \<Rightarrow> StoredValue option \<Rightarrow> HashTable \<Rightarrow> HashTable" where
  "updateStats x pre v ht = ht\<lparr> valueStats := epilogue x pre v (valueStats ht) \<rparr>"

subsection \<open>Resize\<close>

definition prime_size_table :: "int list" where
  "prime_size_table =
     [3, 7, 13, 23, 47, 97, 193, 383, 769, 1531, 3079, 6143, 12289, 24571, 49157,
      98299, 196613, 393209, 786433, 1572869, 3145721, 6291449, 12582917,
      25165813, 50331653, 100663291, 201326611, 402653189, 805306357,
      1610612741, -1]"

definition distance :: "nat \<Rightarrow> nat \<Rightarrow> nat" where
  "distance a b = max a b - min a b"

definition nearest :: "nat \<Rightarrow> nat \<Rightarrow> nat \<Rightarrow> nat" where
  "nearest n a b = (if distance n a < distance b n then a else b)"

text \<open>
  The conversions between \<open>size_t\<close> and \<open>ssize_t\<close>, both 64 bits wide:
  \<open>static_cast<ssize_t>\<close> reads the 64 bits of an unsigned number as a signed one, and
  the assignment of an \<open>ssize_t\<close> to a \<open>size_t\<close> reads them as unsigned again. A
  \<open>size_t\<close> of the table is a \<open>nat\<close> below \<open>2^64\<close>.
\<close>

definition to_ssize_t :: "nat \<Rightarrow> int" where
  "to_ssize_t n = sint (word_of_nat n :: 64 word)"

definition to_size_t :: "int \<Rightarrow> nat" where
  "to_size_t z = unat (word_of_int z :: 64 word)"

definition isCurrently :: "nat \<Rightarrow> int \<Rightarrow> int \<Rightarrow> bool" where
  "isCurrently sz a b = (let current = to_ssize_t sz in current = a \<or> current = b)"

text \<open>
  The loop \<open>for (i = 0; prime_size_table[i] > 0 && prime_size_table[i] < target; ++i)\<close>
  over the rest of the table; the sentinel ends it before the table does.
\<close>

fun prime_walk :: "int list \<Rightarrow> int \<Rightarrow> nat \<Rightarrow> nat" where
  "prime_walk [] target i = i"
| "prime_walk (p # ps) target i =
     (if p > 0 \<and> p < target then prime_walk ps target (Suc i) else i)"

text \<open>
  The size \<open>resize()\<close> passes on, from \<open>ni\<close> items, the initial and the current size:
  \<open>target\<close> and the initial size are compared as \<open>ssize_t\<close>, and a prime of the table
  becomes a \<open>size_t\<close> when it is assigned to \<open>new_size\<close> or handed to \<open>nearest\<close>.
\<close>

definition resize_new_size :: "nat \<Rightarrow> nat \<Rightarrow> nat \<Rightarrow> nat" where
  "resize_new_size ni initSize sz =
     (let target = to_ssize_t ni;
          i = prime_walk prime_size_table target 0
      in if prime_size_table ! i = -1 then to_size_t (prime_size_table ! (i - 1))
         else if prime_size_table ! i < to_ssize_t initSize then initSize
         else if 0 = i then to_size_t (prime_size_table ! i)
         else if isCurrently sz (prime_size_table ! (i - 1)) (prime_size_table ! i) then sz
         else nearest ni (to_size_t (prime_size_table ! (i - 1)))
                (to_size_t (prime_size_table ! i)))"

text \<open>
  The inner \<open>while (values[i])\<close> of \<open>resize(size_t)\<close>: unlink the head of the old chain,
  link it at the head of its bucket in \<open>newValues\<close>. \<open>None\<close> is a bucket number outside
  \<open>newValues\<close>.
\<close>

fun relink :: "Externals \<Rightarrow> nat \<Rightarrow> StoredValue list \<Rightarrow> StoredValue list list
    \<Rightarrow> StoredValue list list option" where
  "relink x newSize [] newValues = Some newValues"
| "relink x newSize (v # chain) newValues =
     (case getBucketForHash newSize (DocKey_hash x (key v)) of
        None \<Rightarrow> None
      | Some newBucket \<Rightarrow>
          if newBucket < length newValues
          then relink x newSize chain
                 (newValues[newBucket := v # (newValues ! newBucket)])
          else None)"

text \<open>The outer \<open>for (size_t i = 0; i < oldSize; i++)\<close>, with \<open>r\<close> buckets still to go.\<close>

fun rebucket :: "Externals \<Rightarrow> nat \<Rightarrow> StoredValue list list \<Rightarrow> nat \<Rightarrow> nat
    \<Rightarrow> StoredValue list list \<Rightarrow> StoredValue list list option" where
  "rebucket x newSize vals i 0 newValues = Some newValues"
| "rebucket x newSize vals i (Suc r) newValues =
     (if i < length vals
      then (case relink x newSize (vals ! i) newValues of
              None \<Rightarrow> None
            | Some nv \<Rightarrow> rebucket x newSize vals (Suc i) r nv)
      else None)"

definition addMemOverhead :: "int \<Rightarrow> HashTable \<Rightarrow> HashTable" where
  "addMemOverhead d ht =
     ht\<lparr> valueStats := (valueStats ht)\<lparr> epStats := (epStats (valueStats ht))
            \<lparr> memOverhead := memOverhead (epStats (valueStats ht)) + d \<rparr> \<rparr> \<rparr>"

definition resize :: "Externals \<Rightarrow> HashTable \<Rightarrow> nat \<Rightarrow> unit result" where
  "resize x ht newSize =
     (if \<not> activeState ht then Inl (logic_error, ht)
      else if newSize > INT_MAX then Inr ((), ht)
      else if newSize = ht_size ht then Inr ((), ht)
      else if visitors ht > 0 then Inr ((), ht)
      else
        let ht1 = addMemOverhead (- memorySize x (ht_size ht)) ht;
            ht2 = ht1\<lparr> numResizes := Suc (numResizes ht1) \<rparr>;
            oldSize = ht_size ht2;
            ht3 = ht2\<lparr> ht_size := newSize \<rparr>
        in (case rebucket x newSize (ht_values ht3) 0 oldSize (replicate newSize []) of
              None \<Rightarrow> Inl (undefined_behaviour, ht3)
            | Some newValues \<Rightarrow>
                Inr ((), addMemOverhead (memorySize x newSize)
                           (ht3\<lparr> ht_values := newValues \<rparr>))))"

text \<open>
  Modelled from the spec: \<open>getNumInMemoryItems()\<close> (absent hash\_table.h), the current
  \<open>num_items\<close>.
\<close>

definition getNumInMemoryItems :: "HashTable \<Rightarrow> nat" where
  "getNumInMemoryItems ht = nat (numItems (valueStats ht))"

definition resize_noarg :: "Externals \<Rightarrow> HashTable \<Rightarrow> unit result" where
  "resize_noarg x ht =
     resize x ht (resize_new_size (getNumInMemoryItems ht) (initialSize ht) (ht_size ht))"

subsection \<open>Find primitives\<close>

text \<open>
  The scan of \<open>findInner\<close> over the chain from position \<open>i\<close>, with what was found so
  far; \<open>None\<close> is a failed \<open>Expects\<close>.
\<close>

fun findInner_scan :: "DocKey \<Rightarrow> StoredValue list \<Rightarrow> nat \<Rightarrow> nat option \<Rightarrow> nat option
    \<Rightarrow> (nat option \<times> nat option) option" where
  "findInner_scan k [] i foundCmt foundPend = Some (foundCmt, foundPend)"
| "findInner_scan k (v # vs) i foundCmt foundPend =
     (if hasKey v k
      then (if isPending v
            then (if foundPend \<noteq> None then None
                  else findInner_scan k vs (Suc i) foundCmt (Some i))
            else (if foundCmt \<noteq> None then None
                  else findInner_scan k vs (Suc i) (Some i) foundPend))
      else findInner_scan k vs (Suc i) foundCmt foundPend)"

text \<open>The result is \<open>(lock, committedSV, pendingSV)\<close>.\<close>

definition findInner :: "Externals \<Rightarrow> HashTable \<Rightarrow> DocKey
    \<Rightarrow> (HashBucketLock \<times> svptr option \<times> svptr option) result" where
  "findInner x ht k =
     (if \<not> activeState ht then Inl (logic_error, ht)
      else (case getLockedBucket x ht k of
              None \<Rightarrow> Inl (undefined_behaviour, ht)
            | Some hbl \<Rightarrow>
                if bucketNum hbl < length (ht_values ht)
                then (case findInner_scan k (ht_values ht ! bucketNum hbl) 0 None None of
                        None \<Rightarrow> Inl (expects_failure, ht)
                      | Some (foundCmt, foundPend) \<Rightarrow>
                          Inr ((hbl, map_option (Pair (bucketNum hbl)) foundCmt,
                                     map_option (Pair (bucketNum hbl)) foundPend), ht))
                else Inl (undefined_behaviour, ht)))"

text \<open>
  \<open>updateFreqCounter\<close> on the value behind a reference: the new value, and the table with
  the saturation callback counted.
\<close>

definition updateFreqCounter :: "Externals \<Rightarrow> StoredValue \<Rightarrow> HashTable \<Rightarrow> StoredValue \<times> HashTable" where
  "updateFreqCounter x v ht =
     (let updatedFreqCounterValue = generateValue x (freqCounter v);
          v' = v\<lparr> freqCounter := updatedFreqCounterValue \<rparr>
      in if updatedFreqCounterValue = 255
         then (v', ht\<lparr> frequencyCounterSaturated := Suc (frequencyCounterSaturated ht) \<rparr>)
         else (v', ht))"

definition findForRead_committed :: "Externals \<Rightarrow> HashTable \<Rightarrow> HashBucketLock \<Rightarrow> svptr option
    \<Rightarrow> TrackReference \<Rightarrow> WantsDeleted \<Rightarrow> (svptr option \<times> HashBucketLock) result" where
  "findForRead_committed x ht hbl committedSV trackReference wantsDeleted =
     (case committedSV of
        None \<Rightarrow> Inr ((None, hbl), ht)
      | Some p \<Rightarrow> withSV ht p (\<lambda>sv.
          if deleted sv
          then Inr ((if wantsDeleted = WantsDeletedYes then Some p else None, hbl), ht)
          else if trackReference = TrackReferenceYes
          then (let (sv1, ht1) = updateFreqCounter x sv ht
                in Inr ((Some p, hbl), storeSV ht1 p (SV_referenced x sv1)))
          else Inr ((Some p, hbl), ht)))"

definition findForRead :: "Externals \<Rightarrow> HashTable \<Rightarrow> DocKey \<Rightarrow> TrackReference \<Rightarrow> WantsDeleted
    \<Rightarrow> (svptr option \<times> HashBucketLock) result" where
  "findForRead x ht k trackReference wantsDeleted =
     (case findInner x ht k of
        Inl e \<Rightarrow> Inl e
      | Inr ((hbl, committedSV, pendingSV), ht0) \<Rightarrow>
          (case pendingSV of
             None \<Rightarrow> findForRead_committed x ht0 hbl committedSV trackReference wantsDeleted
           | Some pp \<Rightarrow> withSV ht0 pp (\<lambda>pv.
               if isPreparedMaybeVisible pv then Inr ((pendingSV, hbl), ht0)
               else findForRead_committed x ht0 hbl committedSV trackReference wantsDeleted)))"

definition findForWrite :: "Externals \<Rightarrow> HashTable \<Rightarrow> DocKey \<Rightarrow> WantsDeleted
    \<Rightarrow> (svptr option \<times> HashBucketLock) result" where
  "findForWrite x ht k wantsDeleted =
     (case findInner x ht k of
        Inl e \<Rightarrow> Inl e
      | Inr ((hbl, committedSV, pendingSV), ht0) \<Rightarrow>
          (case (if pendingSV \<noteq> None then pendingSV else committedSV) of
             None \<Rightarrow> Inr ((None, hbl), ht0)
           | Some p \<Rightarrow>
               if pendingSV \<noteq> None then Inr ((Some p, hbl), ht0)
               else withSV ht0 p (\<lambda>sv.
                 if deleted sv \<and> wantsDeleted = WantsDeletedNo then Inr ((None, hbl), ht0)
                 else Inr ((Some p, hbl), ht0))))"

definition findOnlyCommitted :: "Externals \<Rightarrow> HashTable \<Rightarrow> DocKey
    \<Rightarrow> (svptr option \<times> HashBucketLock) result" where
  "findOnlyCommitted x ht k =
     (case findInner x ht k of
        Inl e \<Rightarrow> Inl e
      | Inr ((hbl, committedSV, pendingSV), ht0) \<Rightarrow> Inr ((committedSV, hbl), ht0))"

definition findOnlyPrepared :: "Externals \<Rightarrow> HashTable \<Rightarrow> DocKey
    \<Rightarrow> (svptr option \<times> HashBucketLock) result" where
  "findOnlyPrepared x ht k =
     (case findInner x ht k of
        Inl e \<Rightarrow> Inl e
      | Inr ((hbl, committedSV, pendingSV), ht0) \<Rightarrow> Inr ((pendingSV, hbl), ht0))"

text \<open>
  \<open>findForCommit\<close> wraps the prepare in a \<open>StoredValueProxy\<close>, whose constructor only takes
  the prologue snapshot; the result here is \<open>(pending, committed)\<close>.
\<close>

definition findForCommit :: "Externals \<Rightarrow> HashTable \<Rightarrow> DocKey
    \<Rightarrow> (svptr option \<times> svptr option) result" where
  "findForCommit x ht k =
     (case findInner x ht k of
        Inl e \<Rightarrow> Inl e
      | Inr ((hbl, committedSV, pendingSV), ht0) \<Rightarrow> Inr ((pendingSV, committedSV), ht0))"

subsection \<open>Insert, update, delete\<close>

text \<open>
  \<open>unlocked_addNewStoredValue\<close>: the factory call \<open>(*valFact)(itm, std::move(values[b]))\<close>
  makes the new value the head of the chain. The returned pointer is that head.
\<close>

definition unlocked_addNewStoredValue :: "Externals \<Rightarrow> HashTable \<Rightarrow> HashBucketLock \<Rightarrow> Item
    \<Rightarrow> svptr result" where
  "unlocked_addNewStoredValue x ht hbl itm =
     (if \<not> htLock hbl then Inl (invalid_argument, ht)
      else if \<not> activeState ht then Inl (invalid_argument, ht)
      else if \<not> bucketNum hbl < length (ht_values ht) then Inl (undefined_behaviour, ht)
      else
        let emptyProperties = prologue x None;
            v = valFact x itm;
            ht1 = updateStats x emptyProperties (Some v) ht;
            ht2 = ht1\<lparr> ht_values := (ht_values ht1)
                         [bucketNum hbl := v # (ht_values ht1 ! bucketNum hbl)] \<rparr>
        in Inr ((bucketNum hbl, 0), ht2))"

text \<open>The result is \<open>(status, storedValue)\<close>.\<close>

definition unlocked_updateStoredValue :: "Externals \<Rightarrow> HashTable \<Rightarrow> HashBucketLock \<Rightarrow> svptr
    \<Rightarrow> Item \<Rightarrow> (MutationStatus \<times> svptr option) result" where
  "unlocked_updateStoredValue x ht hbl p itm =
     (if \<not> htLock hbl then Inl (invalid_argument, ht)
      else if \<not> activeState ht then Inl (logic_error, ht)
      else withSV ht p (\<lambda>v.
        (case committed v of
           Pending \<Rightarrow> Inr ((IsPendingSyncWrite, None), ht)
         | PreparedMaybeVisible \<Rightarrow> Inr ((IsPendingSyncWrite, None), ht)
         | _ \<Rightarrow>
             if Item_isPending itm
             then (case unlocked_addNewStoredValue x ht hbl itm of
                     Inl e \<Rightarrow> Inl e
                   | Inr (sv, ht1) \<Rightarrow> Inr ((WasClean, Some sv), ht1))
             else
               let status = (if dirty v then WasDirty else WasClean);
                   preProps = prologue x (Some v);
                   v1 = SV_setValue x v itm;
                   (v2, ht1) = updateFreqCounter x v1 ht;
                   ht2 = storeSV ht1 p v2;
                   ht3 = updateStats x preProps (Some v2) ht2
               in Inr ((status, Some p), ht3))))"

text \<open>
  \<open>set\<close> calls \<open>findForWrite(val.getKey())\<close>; the second argument is the default of the
  declaration in the absent header, \<open>WantsDeleted::Yes\<close>.
\<close>

definition HashTable_set :: "Externals \<Rightarrow> HashTable \<Rightarrow> Item \<Rightarrow> MutationStatus result" where
  "HashTable_set x ht val =
     (case findForWrite x ht (item_key val) WantsDeletedYes of
        Inl e \<Rightarrow> Inl e
      | Inr ((storedValue, lock), ht0) \<Rightarrow>
          (case storedValue of
             Some p \<Rightarrow>
               (case unlocked_updateStoredValue x ht0 lock p val of
                  Inl e \<Rightarrow> Inl e
                | Inr ((status, sv), ht1) \<Rightarrow> Inr (status, ht1))
           | None \<Rightarrow>
               (case unlocked_addNewStoredValue x ht0 lock val of
                  Inl e \<Rightarrow> Inl e
                | Inr (sv, ht1) \<Rightarrow> Inr (WasClean, ht1))))"

definition unlocked_softDelete :: "Externals \<Rightarrow> HashTable \<Rightarrow> HashBucketLock \<Rightarrow> svptr \<Rightarrow> bool
    \<Rightarrow> DeleteSource \<Rightarrow> (DeletionStatus \<times> svptr option) result" where
  "unlocked_softDelete x ht hbl p onlyMarkDeleted delSource =
     withSV ht p (\<lambda>v.
       (case committed v of
          Pending \<Rightarrow> Inr ((DeletionIsPendingSyncWrite, None), ht)
        | PreparedMaybeVisible \<Rightarrow> Inr ((DeletionIsPendingSyncWrite, None), ht)
        | _ \<Rightarrow>
            let preProps = prologue x (Some v);
                v1 = (if onlyMarkDeleted then SV_markDeleted x v delSource
                      else SV_del x v delSource);
                ht1 = storeSV ht p v1;
                ht2 = updateStats x preProps (Some v1) ht1
            in Inr ((DeletionSuccess, Some p), ht2)))"

text \<open>
  Modelled from the spec: \<open>hashChainRemoveFirst\<close> (absent hash\_table.h) takes the first
  value matching the predicate out of the chain and returns it; the predicate sees the
  place of a value as well, for the pointer comparison of \<open>unlocked_release\<close>.
\<close>

fun hashChainRemoveFirst :: "(nat \<Rightarrow> StoredValue \<Rightarrow> bool) \<Rightarrow> nat \<Rightarrow> StoredValue list
    \<Rightarrow> (StoredValue \<times> StoredValue list) option" where
  "hashChainRemoveFirst pred i [] = None"
| "hashChainRemoveFirst pred i (v # vs) =
     (if pred i v then Some (v, vs)
      else (case hashChainRemoveFirst pred (Suc i) vs of
              None \<Rightarrow> None
            | Some (r, vs') \<Rightarrow> Some (r, v # vs')))"

definition unlocked_release_inner :: "Externals \<Rightarrow> HashTable \<Rightarrow> HashBucketLock
    \<Rightarrow> (nat \<Rightarrow> StoredValue \<Rightarrow> bool) \<Rightarrow> StoredValue result" where
  "unlocked_release_inner x ht hbl releasePredicate =
     (if \<not> htLock hbl then Inl (invalid_argument, ht)
      else if \<not> activeState ht then Inl (logic_error, ht)
      else if \<not> bucketNum hbl < length (ht_values ht) then Inl (undefined_behaviour, ht)
      else (case hashChainRemoveFirst releasePredicate 0 (ht_values ht ! bucketNum hbl) of
              None \<Rightarrow> Inl (logic_error, ht)
            | Some (released, chain) \<Rightarrow>
                let ht1 = ht\<lparr> ht_values := (ht_values ht)[bucketNum hbl := chain] \<rparr>;
                    preProps = prologue x (Some released);
                    ht2 = updateStats x preProps None ht1
                in Inr (released, ht2)))"

definition unlocked_release_key :: "Externals \<Rightarrow> HashTable \<Rightarrow> HashBucketLock \<Rightarrow> DocKey
    \<Rightarrow> StoredValue result" where
  "unlocked_release_key x ht hbl k =
     unlocked_release_inner x ht hbl (\<lambda>i v. hasKey v k)"

definition unlocked_release_ptr :: "Externals \<Rightarrow> HashTable \<Rightarrow> HashBucketLock \<Rightarrow> svptr option
    \<Rightarrow> StoredValue result" where
  "unlocked_release_ptr x ht hbl valueToRelease =
     unlocked_release_inner x ht hbl (\<lambda>i v. Some (bucketNum hbl, i) = valueToRelease)"

definition dropReleased :: "StoredValue result \<Rightarrow> unit result" where
  "dropReleased r = (case r of Inl e \<Rightarrow> Inl e | Inr (released, ht) \<Rightarrow> Inr ((), ht))"

definition unlocked_del_key :: "Externals \<Rightarrow> HashTable \<Rightarrow> HashBucketLock \<Rightarrow> DocKey
    \<Rightarrow> unit result" where
  "unlocked_del_key x ht hbl k = dropReleased (unlocked_release_key x ht hbl k)"

definition unlocked_del_ptr :: "Externals \<Rightarrow> HashTable \<Rightarrow> HashBucketLock \<Rightarrow> svptr option
    \<Rightarrow> unit result" where
  "unlocked_del_ptr x ht hbl p = dropReleased (unlocked_release_ptr x ht hbl p)"

subsection \<open>Eviction, restore, warmup\<close>

definition addValueEject :: "HashTable \<Rightarrow> HashTable" where
  "addValueEject ht =
     ht\<lparr> valueStats := (valueStats ht)\<lparr> epStats := (epStats (valueStats ht))
            \<lparr> numValueEjects := Suc (numValueEjects (epStats (valueStats ht))) \<rparr> \<rparr> \<rparr>"

definition addFailedEject :: "HashTable \<Rightarrow> HashTable" where
  "addFailedEject ht =
     ht\<lparr> valueStats := (valueStats ht)\<lparr> epStats := (epStats (valueStats ht))
            \<lparr> numFailedEjects := Suc (numFailedEjects (epStats (valueStats ht))) \<rparr> \<rparr> \<rparr>"

text \<open>
  Modelled from the spec: \<open>updateMaxDeletedRevSeqno\<close> (absent hash\_table.h) keeps the
  aggregate maximum.
\<close>

definition updateMaxDeletedRevSeqno :: "nat \<Rightarrow> HashTable \<Rightarrow> HashTable" where
  "updateMaxDeletedRevSeqno seqno ht =
     ht\<lparr> maxDeletedRevSeqno := max (maxDeletedRevSeqno ht) seqno \<rparr>"

text \<open>
  \<open>unlocked_ejectItem\<close>. Under the full policy the value is looked for, by address, in the
  chain of the bucket its key hashes to; when it is not there \<open>removed\<close> is null and is
  dereferenced.
\<close>

definition unlocked_ejectItem :: "Externals \<Rightarrow> HashTable \<Rightarrow> HashBucketLock \<Rightarrow> svptr option
    \<Rightarrow> EvictionPolicy \<Rightarrow> bool result" where
  "unlocked_ejectItem x ht hbl vptr policy =
     (case vptr of
        None \<Rightarrow> Inl (invalid_argument, ht)
      | Some p \<Rightarrow> withSV ht p (\<lambda>v.
          if \<not> SV_eligibleForEviction x v policy then Inr (False, addFailedEject ht)
          else
            let preProps = prologue x (Some v)
            in (case policy of
                  Value \<Rightarrow>
                    let v1 = SV_ejectValue x v;
                        ht1 = addValueEject (storeSV ht p v1);
                        ht2 = updateStats x preProps (Some v1) ht1
                    in Inr (True, ht2\<lparr> numEjects := Suc (numEjects ht2) \<rparr>)
                | Full \<Rightarrow>
                    (case getBucketForHash (ht_size ht) (DocKey_hash x (key v)) of
                       None \<Rightarrow> Inl (undefined_behaviour, ht)
                     | Some bucket_num \<Rightarrow>
                         if \<not> bucket_num < length (ht_values ht)
                         then Inl (undefined_behaviour, ht)
                         else (case hashChainRemoveFirst (\<lambda>i w. (bucket_num, i) = p) 0
                                      (ht_values ht ! bucket_num) of
                                 None \<Rightarrow> Inl (undefined_behaviour, ht)
                               | Some (removed, chain) \<Rightarrow>
                                   let ht1 = ht\<lparr> ht_values :=
                                               (ht_values ht)[bucket_num := chain] \<rparr>;
                                       ht2 = (if resident removed then addValueEject ht1
                                              else ht1);
                                       ht3 = updateStats x preProps None ht2;
                                       ht4 = updateMaxDeletedRevSeqno (revSeqno v) ht3
                                   in Inr (True, ht4\<lparr> numEjects := Suc (numEjects ht4) \<rparr>))))))"

definition unlocked_restoreValue :: "Externals \<Rightarrow> HashTable \<Rightarrow> bool \<Rightarrow> Item \<Rightarrow> svptr
    \<Rightarrow> bool result" where
  "unlocked_restoreValue x ht htLockHeld itm p =
     (if \<not> htLockHeld \<or> \<not> activeState ht then Inr (False, ht)
      else withSV ht p (\<lambda>v.
        if resident v then Inr (False, ht)
        else
          let preProps = prologue x (Some v);
              v1 = (if tempItem v then v\<lparr> newCacheItem := False \<rparr> else v);
              v2 = SV_restoreValue x v1 itm;
              ht1 = storeSV ht p v2;
              ht2 = updateStats x preProps (Some v2) ht1
          in Inr (True, ht2)))"

definition unlocked_restoreMeta :: "Externals \<Rightarrow> HashTable \<Rightarrow> bool \<Rightarrow> Item \<Rightarrow> svptr
    \<Rightarrow> unit result" where
  "unlocked_restoreMeta x ht htLockHeld itm p =
     (if \<not> htLockHeld then Inl (invalid_argument, ht)
      else if \<not> activeState ht then Inl (logic_error, ht)
      else withSV ht p (\<lambda>v.
          let preProps = prologue x (Some v);
              v1 = SV_restoreMeta x v itm;
              ht1 = storeSV ht p v1;
              ht2 = updateStats x preProps (Some v1) ht1
          in Inr ((), ht2)))"

text \<open>The end of \<open>insertFromWarmup\<close>, from \<open>v->markClean()\<close> on.\<close>

definition insertFromWarmup_finish :: "Externals \<Rightarrow> HashTable \<Rightarrow> HashBucketLock \<Rightarrow> svptr
    \<Rightarrow> bool \<Rightarrow> bool \<Rightarrow> EvictionPolicy \<Rightarrow> MutationStatus result" where
  "insertFromWarmup_finish x ht hbl p eject keyMetaDataOnly evictionPolicy =
     withSV ht p (\<lambda>v.
       let ht1 = storeSV ht p (v\<lparr> dirty := False \<rparr>)
       in if eject \<and> \<not> keyMetaDataOnly
          then (case unlocked_ejectItem x ht1 hbl (Some p) evictionPolicy of
                  Inl e \<Rightarrow> Inl e
                | Inr (ejected, ht2) \<Rightarrow> Inr (NotFound, ht2))
          else Inr (NotFound, ht1))"

text \<open>
  The part of \<open>insertFromWarmup\<close> for an existing item after the CAS check: the value is
  restored when the item is not resident, under \<open>Expects\<close>.
\<close>

definition insertFromWarmup_restore :: "Externals \<Rightarrow> HashTable \<Rightarrow> HashBucketLock \<Rightarrow> svptr
    \<Rightarrow> Item \<Rightarrow> bool \<Rightarrow> bool \<Rightarrow> EvictionPolicy \<Rightarrow> MutationStatus result" where
  "insertFromWarmup_restore x ht hbl p itm eject keyMetaDataOnly evictionPolicy =
     withSV ht p (\<lambda>v.
       if \<not> resident v
       then (case unlocked_restoreValue x ht (htLock hbl) itm p of
               Inl e \<Rightarrow> Inl e
             | Inr (restored, ht1) \<Rightarrow>
                 if restored
                 then insertFromWarmup_finish x ht1 hbl p eject keyMetaDataOnly
                        evictionPolicy
                 else Inl (expects_failure, ht1))
       else insertFromWarmup_finish x ht hbl p eject keyMetaDataOnly evictionPolicy)"

definition insertFromWarmup :: "Externals \<Rightarrow> HashTable \<Rightarrow> Item \<Rightarrow> bool \<Rightarrow> bool
    \<Rightarrow> EvictionPolicy \<Rightarrow> MutationStatus result" where
  "insertFromWarmup x ht itm eject keyMetaDataOnly evictionPolicy =
     (case findInner x ht (item_key itm) of
        Inl e \<Rightarrow> Inl e
      | Inr ((hbl, committedSV, pendingSV), ht0) \<Rightarrow>
          (case (if Item_isCommitted itm then committedSV else pendingSV) of
             None \<Rightarrow>
               (case unlocked_addNewStoredValue x ht0 hbl itm of
                  Inl e \<Rightarrow> Inl e
                | Inr (p, ht1) \<Rightarrow> withSV ht1 p (\<lambda>v.
                    let (v1, ht2) =
                          (if keyMetaDataOnly
                           then (let preProps = prologue x (Some v);
                                     w = SV_markNotResident x v
                                 in (w, updateStats x preProps (Some w) (storeSV ht1 p w)))
                           else (v, ht1));
                        ht3 = storeSV ht2 p (v1\<lparr> newCacheItem := False \<rparr>)
                    in insertFromWarmup_finish x ht3 hbl p eject keyMetaDataOnly
                         evictionPolicy))
           | Some p \<Rightarrow>
               if keyMetaDataOnly then Inr (InvalidCas, ht0)
               else withSV ht0 p (\<lambda>v.
                 if cas v \<noteq> item_cas itm
                 then (if cas v = 0
                       then insertFromWarmup_restore x
                              (storeSV ht0 p
                                 (v\<lparr> cas := item_cas itm, flags := item_flags itm,
                                      exptime := item_exptime itm,
                                      revSeqno := item_revSeqno itm \<rparr>))
                              hbl p itm eject keyMetaDataOnly evictionPolicy
                       else Inr (InvalidCas, ht0))
                 else insertFromWarmup_restore x ht0 hbl p itm eject keyMetaDataOnly
                        evictionPolicy)))"

subsection \<open>Invariants and the tuples of the specification\<close>

text \<open>The multiset of \<open>(key, cas, committed_state)\<close> over all bucket chains.\<close>

definition tuples :: "HashTable \<Rightarrow> (DocKey \<times> nat \<times> CommittedState) multiset" where
  "tuples ht = image_mset (\<lambda>v. (key v, cas v, committed v)) (mset (concat (ht_values ht)))"

text \<open>Invariant 1: every value is in the bucket of its key's hash.\<close>

definition placed :: "Externals \<Rightarrow> nat \<Rightarrow> StoredValue list list \<Rightarrow> bool" where
  "placed x sz vals =
     (\<forall>b < length vals. \<forall>v \<in> set (vals ! b). DocKey_hash x (key v) mod sz = b)"

text \<open>
  Invariant 2: in a chain, at most one committed and at most one pending value of a key.
\<close>

definition committedOf :: "DocKey \<Rightarrow> StoredValue list \<Rightarrow> StoredValue list" where
  "committedOf k chain = filter (\<lambda>v. hasKey v k \<and> \<not> isPending v) chain"

definition pendingOf :: "DocKey \<Rightarrow> StoredValue list \<Rightarrow> StoredValue list" where
  "pendingOf k chain = filter (\<lambda>v. hasKey v k \<and> isPending v) chain"

definition chainUnique :: "StoredValue list \<Rightarrow> bool" where
  "chainUnique chain =
     (\<forall>k. length (committedOf k chain) \<le> 1 \<and> length (pendingOf k chain) \<le> 1)"

definition dualEntryUnique :: "HashTable \<Rightarrow> bool" where
  "dualEntryUnique ht = (\<forall>chain \<in> set (ht_values ht). chainUnique chain)"

text \<open>
  What a pointer returned by a lookup stands for: null when the selection \<open>sel\<close> of the
  chain of bucket \<open>b\<close> is empty, else the place in that chain of its only value.
\<close>

definition foundIn :: "nat \<Rightarrow> StoredValue list \<Rightarrow> StoredValue list \<Rightarrow> svptr option \<Rightarrow> bool" where
  "foundIn b chain sel r =
     (case r of
        None \<Rightarrow> sel = []
      | Some q \<Rightarrow> fst q = b \<and> snd q < length chain \<and> sel = [chain ! snd q])"

subsection \<open>The statistics categories as the specification words them\<close>

text \<open>
  Section 4.3 of the specification, for a value that may be absent. "No such value" has
  every size zero and is in no category; a value that exists is valid. A value is
  prepared when its committed state is \<open>Pending\<close> or \<open>PreparedMaybeVisible\<close>. None of
  these definitions is used by the epilogue above.
\<close>

definition spec_size :: "Externals \<Rightarrow> StoredValue option \<Rightarrow> int" where
  "spec_size x v = (case v of None \<Rightarrow> 0 | Some sv \<Rightarrow> SV_size x sv)"

definition spec_metaDataSize :: "Externals \<Rightarrow> StoredValue option \<Rightarrow> int" where
  "spec_metaDataSize x v = (case v of None \<Rightarrow> 0 | Some sv \<Rightarrow> SV_metaDataSize x sv)"

definition spec_uncompressedSize :: "Externals \<Rightarrow> StoredValue option \<Rightarrow> int" where
  "spec_uncompressedSize x v = (case v of None \<Rightarrow> 0 | Some sv \<Rightarrow> SV_uncompressedSize x sv)"

definition spec_isPrepared :: "StoredValue \<Rightarrow> bool" where
  "spec_isPrepared sv = (committed sv = Pending \<or> committed sv = PreparedMaybeVisible)"

definition spec_isSystem :: "Externals \<Rightarrow> StoredValue \<Rightarrow> bool" where
  "spec_isSystem x sv = CollectionID_isSystem x (collectionID (key sv))"

text \<open>valid, not resident, not deleted, not temporary\<close>

definition spec_nonResident :: "StoredValue option \<Rightarrow> bool" where
  "spec_nonResident v =
     (case v of None \<Rightarrow> False
      | Some sv \<Rightarrow> \<not> resident sv \<and> \<not> deleted sv \<and> \<not> tempItem sv)"

text \<open>temporary\<close>

definition spec_temp :: "StoredValue option \<Rightarrow> bool" where
  "spec_temp v = (case v of None \<Rightarrow> False | Some sv \<Rightarrow> tempItem sv)"

text \<open>valid, not temporary\<close>

definition spec_item :: "StoredValue option \<Rightarrow> bool" where
  "spec_item v = (case v of None \<Rightarrow> False | Some sv \<Rightarrow> \<not> tempItem sv)"

text \<open>system\<close>

definition spec_system :: "Externals \<Rightarrow> StoredValue option \<Rightarrow> bool" where
  "spec_system x v = (case v of None \<Rightarrow> False | Some sv \<Rightarrow> spec_isSystem x sv)"

text \<open>valid, prepared\<close>

definition spec_prepared :: "StoredValue option \<Rightarrow> bool" where
  "spec_prepared v = (case v of None \<Rightarrow> False | Some sv \<Rightarrow> spec_isPrepared sv)"

text \<open>deleted, not system, not prepared\<close>

definition spec_deleted :: "Externals \<Rightarrow> StoredValue option \<Rightarrow> bool" where
  "spec_deleted x v =
     (case v of None \<Rightarrow> False
      | Some sv \<Rightarrow> deleted sv \<and> \<not> spec_isSystem x sv \<and> \<not> spec_isPrepared sv)"

text \<open>
  counted in \<open>datatype_counts\<close> at \<open>d\<close>: valid, not temporary, not deleted, not prepared, and
  of datatype \<open>d\<close>
\<close>

definition spec_datatypeCounted :: "StoredValue option \<Rightarrow> nat \<Rightarrow> bool" where
  "spec_datatypeCounted v d =
     (case v of None \<Rightarrow> False
      | Some sv \<Rightarrow> \<not> tempItem sv \<and> \<not> deleted sv \<and> \<not> spec_isPrepared sv
                  \<and> datatype_bits sv = d)"

subsection \<open>The size selection as the specification words it\<close>

text \<open>
  The prime table without its sentinel, and the relation between the number of items
  \<open>n\<close>, the initial size, the current size and a chosen size \<open>r\<close>: the smallest prime
  not below \<open>n\<close>; the largest prime when there is none; the initial size when that
  prime is smaller; otherwise, with the largest prime below \<open>n\<close> as the other
  candidate, the current size if it is one of the two, else one of the two that is
  nearest to \<open>n\<close>. When no prime is below \<open>n\<close> the only candidate is chosen.
\<close>

definition spec_primes :: "nat list" where
  "spec_primes =
     [3, 7, 13, 23, 47, 97, 193, 383, 769, 1531, 3079, 6143, 12289, 24571, 49157,
      98299, 196613, 393209, 786433, 1572869, 3145721, 6291449, 12582917,
      25165813, 50331653, 100663291, 201326611, 402653189, 805306357,
      1610612741]"

definition spec_chosen_size :: "nat \<Rightarrow> nat \<Rightarrow> nat \<Rightarrow> nat \<Rightarrow> bool" where
  "spec_chosen_size n initSize cur r =
     (case List.find (\<lambda>p. n \<le> p) spec_primes of
        None \<Rightarrow> r = last spec_primes
      | Some p \<Rightarrow>
          if p < initSize then r = initSize
          else (case List.find (\<lambda>q. q < n) (rev spec_primes) of
                  None \<Rightarrow> r = p
                | Some q \<Rightarrow>
                    if cur = q \<or> cur = p then r = cur
                    else (r = q \<or> r = p)
                       \<and> \<bar>int n - int r\<bar> \<le> \<bar>int n - int q\<bar>
                       \<and> \<bar>int n - int r\<bar> \<le> \<bar>int n - int p\<bar>))"

subsection \<open>The contract of a read, for the committed value\<close>

text \<open>
  What \<open>findForRead\<close> is to give when no visible prepare is in the way: null without a
  committed value of the key; a deleted one only to a caller who wants deleted values;
  a live one always, its frequency counter updated (and \<open>referenced()\<close> called) exactly
  when references are tracked. In every other case the table is as before.
\<close>

definition readCommitted :: "Externals \<Rightarrow> HashTable \<Rightarrow> DocKey \<Rightarrow> TrackReference \<Rightarrow> WantsDeleted
    \<Rightarrow> (svptr option \<times> HashBucketLock) result \<Rightarrow> bool" where
  "readCommitted x ht k trackReference wantsDeleted r =
     (let b = DocKey_hash x k mod ht_size ht;
          chain = ht_values ht ! b;
          hbl = \<lparr> htLock = True, bucketNum = b \<rparr>
      in (case committedOf k chain of
            [] \<Rightarrow> r = Inr ((None, hbl), ht)
          | cv # _ \<Rightarrow>
              (\<exists>i < length chain. chain ! i = cv \<and>
                 (if deleted cv
                  then r = Inr ((if wantsDeleted = WantsDeletedYes then Some (b, i) else None, hbl), ht)
                  else if trackReference = TrackReferenceYes
                  then r = Inr ((Some (b, i), hbl),
                           storeSV (snd (updateFreqCounter x cv ht)) (b, i)
                             (SV_referenced x (fst (updateFreqCounter x cv ht))))
                  else r = Inr ((Some (b, i), hbl), ht)))))"

subsection \<open>The outcome of a warmup insert\<close>

text \<open>
  The value a new entry starts with, the value an existing entry \<open>v\<close> ends with, and the
  end of the call: \<open>unlocked_ejectItem\<close> runs when \<open>eject && !keyMetaDataOnly\<close>, and the
  status is \<open>NotFound\<close>.
\<close>

definition warmupNew :: "Externals \<Rightarrow> Item \<Rightarrow> bool \<Rightarrow> StoredValue" where
  "warmupNew x itm keyMetaDataOnly =
     (if keyMetaDataOnly then SV_markNotResident x (valFact x itm) else valFact x itm)
       \<lparr> newCacheItem := False, dirty := False \<rparr>"

definition warmupFilled :: "Item \<Rightarrow> StoredValue \<Rightarrow> StoredValue" where
  "warmupFilled itm v =
     (if cas v = 0 \<and> cas v \<noteq> item_cas itm
      then v\<lparr> cas := item_cas itm, flags := item_flags itm, exptime := item_exptime itm,
              revSeqno := item_revSeqno itm \<rparr>
      else v)"

definition warmupRestored :: "Externals \<Rightarrow> Item \<Rightarrow> StoredValue \<Rightarrow> StoredValue" where
  "warmupRestored x itm v =
     (if resident v then v
      else SV_restoreValue x (if tempItem v then v\<lparr> newCacheItem := False \<rparr> else v) itm)"

definition warmupExisting :: "Externals \<Rightarrow> Item \<Rightarrow> StoredValue \<Rightarrow> StoredValue" where
  "warmupExisting x itm v = (warmupRestored x itm (warmupFilled itm v))\<lparr> dirty := False \<rparr>"

definition warmupEject :: "Externals \<Rightarrow> HashTable \<Rightarrow> HashBucketLock \<Rightarrow> svptr \<Rightarrow> bool \<Rightarrow> bool
    \<Rightarrow> EvictionPolicy \<Rightarrow> MutationStatus result" where
  "warmupEject x h hbl p eject keyMetaDataOnly evictionPolicy =
     (if eject \<and> \<not> keyMetaDataOnly
      then (case unlocked_ejectItem x h hbl (Some p) evictionPolicy of
              Inl e \<Rightarrow> Inl e
            | Inr (ejected, h') \<Rightarrow> Inr (NotFound, h'))
      else Inr (NotFound, h))"

definition warmupBucket :: "Externals \<Rightarrow> HashTable \<Rightarrow> Item \<Rightarrow> nat" where
  "warmupBucket x ht itm = DocKey_hash x (item_key itm) mod ht_size ht"

definition warmupMatching :: "Item \<Rightarrow> StoredValue list \<Rightarrow> StoredValue list" where
  "warmupMatching itm chain =
     (if Item_isCommitted itm then committedOf (item_key itm) chain
      else pendingOf (item_key itm) chain)"

subsection \<open>Reachable tables\<close>

text \<open>
  What the model asks of the absent StoredValue class and of the factory: a mutator
  leaves the key and the category (pending or committed) of a value as they are;
  \<open>setValue\<close> leaves the key, and a committed value stays committed under an item that is
  not pending; the factory gives the new value the key and the category of the item.
\<close>

definition keepsIdentity :: "(StoredValue \<Rightarrow> StoredValue) \<Rightarrow> bool" where
  "keepsIdentity f = (\<forall>v. key (f v) = key v \<and> isPending (f v) = isPending v)"

definition externalsKeepIdentity :: "Externals \<Rightarrow> bool" where
  "externalsKeepIdentity x =
     ((\<forall>v itm. key (SV_setValue x v itm) = key v
          \<and> (\<not> isPending v \<and> \<not> Item_isPending itm \<longrightarrow> \<not> isPending (SV_setValue x v itm)))
      \<and> (\<forall>s. keepsIdentity (\<lambda>v. SV_markDeleted x v s))
      \<and> (\<forall>s. keepsIdentity (\<lambda>v. SV_del x v s))
      \<and> keepsIdentity (SV_markNotResident x)
      \<and> keepsIdentity (SV_ejectValue x)
      \<and> (\<forall>itm. keepsIdentity (\<lambda>v. SV_restoreValue x v itm))
      \<and> (\<forall>itm. keepsIdentity (\<lambda>v. SV_restoreMeta x v itm))
      \<and> (\<forall>itm. key (valFact x itm) = item_key itm
              \<and> isPending (valFact x itm) = Item_isPending itm))"

text \<open>
  The invariant that the operations keep: one chain for each bucket, invariant 1 and
  invariant 2.
\<close>

definition tableInv :: "Externals \<Rightarrow> HashTable \<Rightarrow> bool" where
  "tableInv x ht =
     (length (ht_values ht) = ht_size ht \<and> placed x (ht_size ht) (ht_values ht)
      \<and> dualEntryUnique ht)"

text \<open>
  The table an operation leaves behind, by return or by exception; there is none after
  undefined behaviour.
\<close>

definition outcome :: "'a result \<Rightarrow> HashTable option" where
  "outcome r =
     (case r of
        Inl (e, h) \<Rightarrow> if e = undefined_behaviour then None else Some h
      | Inr (a, h) \<Rightarrow> Some h)"

text \<open>
  When \<open>unlocked_addNewStoredValue\<close> may be called: with the lock of the bucket of the
  item's key, and no value of that key in the item's category in the chain. \<open>set\<close> and
  \<open>insertFromWarmup\<close> call it so.
\<close>

definition addNewAllowed :: "Externals \<Rightarrow> HashTable \<Rightarrow> HashBucketLock \<Rightarrow> Item \<Rightarrow> bool" where
  "addNewAllowed x ht hbl itm =
     (bucketNum hbl = DocKey_hash x (item_key itm) mod ht_size ht
      \<and> (if Item_isPending itm
          then pendingOf (item_key itm) (ht_values ht ! bucketNum hbl) = []
          else committedOf (item_key itm) (ht_values ht ! bucketNum hbl) = []))"

text \<open>
  One operation on the table, and the tables reachable from a new one.
\<close>

inductive step :: "Externals \<Rightarrow> HashTable \<Rightarrow> HashTable \<Rightarrow> bool" for x where
  step_set: "outcome (HashTable_set x ht itm) = Some ht' \<Longrightarrow> step x ht ht'"
| step_update:
    "outcome (unlocked_updateStoredValue x ht hbl p itm) = Some ht' \<Longrightarrow>
     (\<forall>v. deref ht p = Some v \<and> \<not> isPending v \<and> Item_isPending itm \<longrightarrow>
          addNewAllowed x ht hbl itm) \<Longrightarrow> step x ht ht'"
| step_addNew:
    "outcome (unlocked_addNewStoredValue x ht hbl itm) = Some ht' \<Longrightarrow>
     addNewAllowed x ht hbl itm \<Longrightarrow> step x ht ht'"
| step_softDelete:
    "outcome (unlocked_softDelete x ht hbl p onlyMarkDeleted delSource) = Some ht' \<Longrightarrow>
     step x ht ht'"
| step_release_key: "outcome (unlocked_release_key x ht hbl k) = Some ht' \<Longrightarrow> step x ht ht'"
| step_release_ptr: "outcome (unlocked_release_ptr x ht hbl vptr) = Some ht' \<Longrightarrow> step x ht ht'"
| step_del_key: "outcome (unlocked_del_key x ht hbl k) = Some ht' \<Longrightarrow> step x ht ht'"
| step_del_ptr: "outcome (unlocked_del_ptr x ht hbl vptr) = Some ht' \<Longrightarrow> step x ht ht'"
| step_resize: "outcome (resize x ht newSize) = Some ht' \<Longrightarrow> step x ht ht'"
| step_resize_noarg: "outcome (resize_noarg x ht) = Some ht' \<Longrightarrow> step x ht ht'"
| step_ejectItem:
    "outcome (unlocked_ejectItem x ht hbl vptr policy) = Some ht' \<Longrightarrow> step x ht ht'"
| step_insertFromWarmup:
    "outcome (insertFromWarmup x ht itm eject keyMetaDataOnly policy) = Some ht' \<Longrightarrow>
     step x ht ht'"
| step_restoreValue:
    "outcome (unlocked_restoreValue x ht htLockHeld itm p) = Some ht' \<Longrightarrow> step x ht ht'"
| step_restoreMeta:
    "outcome (unlocked_restoreMeta x ht htLockHeld itm p) = Some ht' \<Longrightarrow> step x ht ht'"

inductive reachable :: "Externals \<Rightarrow> HashTable \<Rightarrow> bool" for x where
  reachable_new: "reachable x (newHashTable st initSize locks)"
| reachable_step: "reachable x ht \<Longrightarrow> step x ht ht' \<Longrightarrow> reachable x ht'"

text \<open>Every table an operation can leave behind satisfies the invariant.\<close>

definition keepsInv :: "Externals \<Rightarrow> 'a result \<Rightarrow> bool" where
  "keepsInv x r = (\<forall>h. outcome r = Some h \<longrightarrow> tableInv x h)"

section \<open>Sample instances\<close>

text \<open>
  An instance of the external functions and small tables on which the theorems below
  are evaluated. The key \<open>''a''\<close> hashes to bucket 1 of 3.
\<close>

definition simpleExternals :: Externals where
  "simpleExternals =
     \<lparr> DocKey_hash = (\<lambda>k. length (keyBytes k)),
       CollectionID_isSystem = (\<lambda>c. c = 1),
       SV_size = (\<lambda>v. 56 + int (length (keyBytes (key v)))
                    + (case valueBytes v of None \<Rightarrow> 0 | Some b \<Rightarrow> int (length b))),
       SV_metaDataSize = (\<lambda>v. 56 + int (length (keyBytes (key v)))),
       SV_uncompressedSize = (\<lambda>v. 56 + int (length (keyBytes (key v)))
                    + (case valueBytes v of None \<Rightarrow> 0 | Some b \<Rightarrow> int (length b))),
       SV_setValue = (\<lambda>v itm. v\<lparr> valueBytes := Some (item_value itm), cas := item_cas itm,
                    revSeqno := item_revSeqno itm, flags := item_flags itm,
                    exptime := item_exptime itm, datatype_bits := item_datatype itm,
                    committed := item_committed itm, deleted := item_deleted itm,
                    resident := True, dirty := True \<rparr>),
       SV_markDeleted = (\<lambda>v s. v\<lparr> deleted := True, deleteSource := s, dirty := True \<rparr>),
       SV_del = (\<lambda>v s. v\<lparr> valueBytes := None, deleted := True, deleteSource := s,
                    dirty := True \<rparr>),
       SV_markNotResident = (\<lambda>v. v\<lparr> valueBytes := None, resident := False \<rparr>),
       SV_ejectValue = (\<lambda>v. v\<lparr> valueBytes := None, resident := False \<rparr>),
       SV_referenced = (\<lambda>v. v),
       SV_restoreValue = (\<lambda>v itm. v\<lparr> valueBytes := Some (item_value itm), resident := True \<rparr>),
       SV_restoreMeta = (\<lambda>v itm. v\<lparr> cas := item_cas itm, flags := item_flags itm,
                    exptime := item_exptime itm, revSeqno := item_revSeqno itm \<rparr>),
       SV_eligibleForEviction = (\<lambda>v policy. \<not> isPending v \<and> \<not> dirty v
                    \<and> (policy = Full \<or> (resident v \<and> \<not> deleted v))),
       valFact = (\<lambda>itm. \<lparr> key = item_key itm, valueBytes = Some (item_value itm),
                    cas = item_cas itm, revSeqno = item_revSeqno itm, bySeqno = 0,
                    flags = item_flags itm, exptime = item_exptime itm,
                    datatype_bits = item_datatype itm, committed = item_committed itm,
                    deleted = item_deleted itm, deleteSource = Explicit, resident = True,
                    dirty = True, tempItem = False, newCacheItem = True, freqCounter = 4 \<rparr>),
       generateValue = (\<lambda>c. if c = 255 then c else c + 1),
       memorySize = (\<lambda>n. 8 * int n) \<rparr>"

definition sampleKey :: DocKey where
  "sampleKey = \<lparr> collectionID = 0, keyBytes = ''a'' \<rparr>"

definition sampleItem :: "CommittedState \<Rightarrow> string \<Rightarrow> nat \<Rightarrow> Item" where
  "sampleItem c val n =
     \<lparr> item_key = sampleKey, item_value = val, item_cas = n, item_revSeqno = 1,
       item_flags = 0, item_exptime = 0, item_datatype = 0, item_committed = c,
       item_deleted = False \<rparr>"

definition sampleCommitted :: StoredValue where
  "sampleCommitted = valFact simpleExternals (sampleItem CommittedViaMutation ''1'' 10)"

definition samplePending :: StoredValue where
  "samplePending = valFact simpleExternals (sampleItem Pending ''2'' 11)"

definition sampleMaybeVisible :: StoredValue where
  "sampleMaybeVisible = valFact simpleExternals (sampleItem PreparedMaybeVisible ''2'' 11)"

definition sampleLock :: HashBucketLock where
  "sampleLock = \<lparr> htLock = True, bucketNum = 1 \<rparr>"

definition sampleZeroCas :: StoredValue where
  "sampleZeroCas = sampleCommitted\<lparr> valueBytes := None, cas := 0, resident := False \<rparr>"

definition sampleStats :: EPStats where
  "sampleStats = \<lparr> currentSize = 0, memOverhead = 0, numFailedEjects = 0, numValueEjects = 0 \<rparr>"

definition sampleTable :: "StoredValue list \<Rightarrow> HashTable" where
  "sampleTable chain = (newHashTable sampleStats 3 1)\<lparr> ht_values := [[], chain, []] \<rparr>"

definition sampleNew :: HashTable where
  "sampleNew = newHashTable sampleStats 3 1"

definition sampleInactive :: HashTable where
  "sampleInactive = (sampleTable [sampleCommitted])\<lparr> activeState := False \<rparr>"

text \<open>The sample table with its item count at ten.\<close>

definition sampleTen :: HashTable where
  "sampleTen = (sampleTable [sampleCommitted])
     \<lparr> valueStats := (valueStats (sampleTable [sampleCommitted]))\<lparr> numItems := 10 \<rparr> \<rparr>"


lemmas sample_defs =
  simpleExternals_def sampleKey_def sampleItem_def sampleCommitted_def samplePending_def
  sampleMaybeVisible_def sampleZeroCas_def sampleStats_def sampleTable_def newHashTable_def newStatistics_def

section \<open>Properties\<close>

subsection \<open>The sample instances\<close>

lemma sample_chainUnique:
  "chainUnique [sampleMaybeVisible, sampleCommitted]"
  "chainUnique [samplePending, sampleCommitted]"
  "chainUnique [sampleCommitted]"
  "chainUnique []"
  by (auto simp: chainUnique_def committedOf_def pendingOf_def hasKey_def isPending_def sample_defs)

lemma sample_facts:
  "key sampleCommitted = sampleKey" "key samplePending = sampleKey"
  "key sampleMaybeVisible = sampleKey"
  "\<not> isPending sampleCommitted" "isPending samplePending" "isPending sampleMaybeVisible"
  "isPreparedMaybeVisible sampleMaybeVisible" "\<not> isPreparedMaybeVisible samplePending"
  "\<not> deleted sampleCommitted" "samplePending \<noteq> sampleCommitted"
  "sampleMaybeVisible \<noteq> sampleCommitted"
  "DocKey_hash simpleExternals sampleKey = 1"
  by (simp_all add: sample_defs isPending_def isPreparedMaybeVisible_def)

lemma sampleTable_fields:
  "activeState (sampleTable chain)" "ht_size (sampleTable chain) = 3"
  "ht_values (sampleTable chain) = [[], chain, []]" "visitors (sampleTable chain) = 0"
  "numResizes (sampleTable chain) = 0"
  by (simp_all add: sampleTable_def newHashTable_def)

subsection \<open>Statistics\<close>

lemma size_frame [simp]:
  "metaDataMemory (epilogue_size pre post st) = metaDataMemory st"
  "uncompressedMemSize (epilogue_size pre post st) = uncompressedMemSize st"
  "numNonResidentItems (epilogue_size pre post st) = numNonResidentItems st"
  "numTempItems (epilogue_size pre post st) = numTempItems st"
  "numItems (epilogue_size pre post st) = numItems st"
  "numSystemItems (epilogue_size pre post st) = numSystemItems st"
  "numPreparedSyncWrites (epilogue_size pre post st) = numPreparedSyncWrites st"
  "numDeletedItems (epilogue_size pre post st) = numDeletedItems st"
  "datatypeCounts (epilogue_size pre post st) = datatypeCounts st"
  "epStats (epilogue_size pre post st) = epStats st"
  by (simp_all add: epilogue_size_def)

lemma metaDataSize_frame [simp]:
  "cacheSize (epilogue_metaDataSize pre post st) = cacheSize st"
  "memSize (epilogue_metaDataSize pre post st) = memSize st"
  "uncompressedMemSize (epilogue_metaDataSize pre post st) = uncompressedMemSize st"
  "numNonResidentItems (epilogue_metaDataSize pre post st) = numNonResidentItems st"
  "numTempItems (epilogue_metaDataSize pre post st) = numTempItems st"
  "numItems (epilogue_metaDataSize pre post st) = numItems st"
  "numSystemItems (epilogue_metaDataSize pre post st) = numSystemItems st"
  "numPreparedSyncWrites (epilogue_metaDataSize pre post st) = numPreparedSyncWrites st"
  "numDeletedItems (epilogue_metaDataSize pre post st) = numDeletedItems st"
  "datatypeCounts (epilogue_metaDataSize pre post st) = datatypeCounts st"
  by (simp_all add: epilogue_metaDataSize_def)

lemma uncompressedSize_frame [simp]:
  "cacheSize (epilogue_uncompressedSize pre post st) = cacheSize st"
  "memSize (epilogue_uncompressedSize pre post st) = memSize st"
  "metaDataMemory (epilogue_uncompressedSize pre post st) = metaDataMemory st"
  "numNonResidentItems (epilogue_uncompressedSize pre post st) = numNonResidentItems st"
  "numTempItems (epilogue_uncompressedSize pre post st) = numTempItems st"
  "numItems (epilogue_uncompressedSize pre post st) = numItems st"
  "numSystemItems (epilogue_uncompressedSize pre post st) = numSystemItems st"
  "numPreparedSyncWrites (epilogue_uncompressedSize pre post st) = numPreparedSyncWrites st"
  "numDeletedItems (epilogue_uncompressedSize pre post st) = numDeletedItems st"
  "datatypeCounts (epilogue_uncompressedSize pre post st) = datatypeCounts st"
  "epStats (epilogue_uncompressedSize pre post st) = epStats st"
  by (simp_all add: epilogue_uncompressedSize_def)

lemma nonResident_frame [simp]:
  "cacheSize (epilogue_nonResident pre post st) = cacheSize st"
  "memSize (epilogue_nonResident pre post st) = memSize st"
  "metaDataMemory (epilogue_nonResident pre post st) = metaDataMemory st"
  "uncompressedMemSize (epilogue_nonResident pre post st) = uncompressedMemSize st"
  "numTempItems (epilogue_nonResident pre post st) = numTempItems st"
  "numItems (epilogue_nonResident pre post st) = numItems st"
  "numSystemItems (epilogue_nonResident pre post st) = numSystemItems st"
  "numPreparedSyncWrites (epilogue_nonResident pre post st) = numPreparedSyncWrites st"
  "numDeletedItems (epilogue_nonResident pre post st) = numDeletedItems st"
  "datatypeCounts (epilogue_nonResident pre post st) = datatypeCounts st"
  "epStats (epilogue_nonResident pre post st) = epStats st"
  by (simp_all add: epilogue_nonResident_def Let_def)

lemma tempItems_frame [simp]:
  "cacheSize (epilogue_tempItems pre post st) = cacheSize st"
  "memSize (epilogue_tempItems pre post st) = memSize st"
  "metaDataMemory (epilogue_tempItems pre post st) = metaDataMemory st"
  "uncompressedMemSize (epilogue_tempItems pre post st) = uncompressedMemSize st"
  "numNonResidentItems (epilogue_tempItems pre post st) = numNonResidentItems st"
  "numItems (epilogue_tempItems pre post st) = numItems st"
  "numSystemItems (epilogue_tempItems pre post st) = numSystemItems st"
  "numPreparedSyncWrites (epilogue_tempItems pre post st) = numPreparedSyncWrites st"
  "numDeletedItems (epilogue_tempItems pre post st) = numDeletedItems st"
  "datatypeCounts (epilogue_tempItems pre post st) = datatypeCounts st"
  "epStats (epilogue_tempItems pre post st) = epStats st"
  by (simp_all add: epilogue_tempItems_def)

lemma numItems_frame [simp]:
  "cacheSize (epilogue_numItems pre post st) = cacheSize st"
  "memSize (epilogue_numItems pre post st) = memSize st"
  "metaDataMemory (epilogue_numItems pre post st) = metaDataMemory st"
  "uncompressedMemSize (epilogue_numItems pre post st) = uncompressedMemSize st"
  "numNonResidentItems (epilogue_numItems pre post st) = numNonResidentItems st"
  "numTempItems (epilogue_numItems pre post st) = numTempItems st"
  "numSystemItems (epilogue_numItems pre post st) = numSystemItems st"
  "numPreparedSyncWrites (epilogue_numItems pre post st) = numPreparedSyncWrites st"
  "numDeletedItems (epilogue_numItems pre post st) = numDeletedItems st"
  "datatypeCounts (epilogue_numItems pre post st) = datatypeCounts st"
  "epStats (epilogue_numItems pre post st) = epStats st"
  by (simp_all add: epilogue_numItems_def Let_def)

lemma systemItems_frame [simp]:
  "cacheSize (epilogue_systemItems pre post st) = cacheSize st"
  "memSize (epilogue_systemItems pre post st) = memSize st"
  "metaDataMemory (epilogue_systemItems pre post st) = metaDataMemory st"
  "uncompressedMemSize (epilogue_systemItems pre post st) = uncompressedMemSize st"
  "numNonResidentItems (epilogue_systemItems pre post st) = numNonResidentItems st"
  "numTempItems (epilogue_systemItems pre post st) = numTempItems st"
  "numItems (epilogue_systemItems pre post st) = numItems st"
  "numPreparedSyncWrites (epilogue_systemItems pre post st) = numPreparedSyncWrites st"
  "numDeletedItems (epilogue_systemItems pre post st) = numDeletedItems st"
  "datatypeCounts (epilogue_systemItems pre post st) = datatypeCounts st"
  "epStats (epilogue_systemItems pre post st) = epStats st"
  by (simp_all add: epilogue_systemItems_def)

lemma prepared_frame [simp]:
  "cacheSize (epilogue_prepared pre post st) = cacheSize st"
  "memSize (epilogue_prepared pre post st) = memSize st"
  "metaDataMemory (epilogue_prepared pre post st) = metaDataMemory st"
  "uncompressedMemSize (epilogue_prepared pre post st) = uncompressedMemSize st"
  "numNonResidentItems (epilogue_prepared pre post st) = numNonResidentItems st"
  "numTempItems (epilogue_prepared pre post st) = numTempItems st"
  "numItems (epilogue_prepared pre post st) = numItems st"
  "numSystemItems (epilogue_prepared pre post st) = numSystemItems st"
  "numDeletedItems (epilogue_prepared pre post st) = numDeletedItems st"
  "datatypeCounts (epilogue_prepared pre post st) = datatypeCounts st"
  "epStats (epilogue_prepared pre post st) = epStats st"
  by (simp_all add: epilogue_prepared_def Let_def)

lemma deleted_frame [simp]:
  "cacheSize (epilogue_deleted pre post st) = cacheSize st"
  "memSize (epilogue_deleted pre post st) = memSize st"
  "metaDataMemory (epilogue_deleted pre post st) = metaDataMemory st"
  "uncompressedMemSize (epilogue_deleted pre post st) = uncompressedMemSize st"
  "numNonResidentItems (epilogue_deleted pre post st) = numNonResidentItems st"
  "numTempItems (epilogue_deleted pre post st) = numTempItems st"
  "numItems (epilogue_deleted pre post st) = numItems st"
  "numSystemItems (epilogue_deleted pre post st) = numSystemItems st"
  "numPreparedSyncWrites (epilogue_deleted pre post st) = numPreparedSyncWrites st"
  "datatypeCounts (epilogue_deleted pre post st) = datatypeCounts st"
  "epStats (epilogue_deleted pre post st) = epStats st"
  by (simp_all add: epilogue_deleted_def Let_def)

lemma datatype_pre_frame [simp]:
  "cacheSize (epilogue_datatype_pre pre st) = cacheSize st"
  "memSize (epilogue_datatype_pre pre st) = memSize st"
  "metaDataMemory (epilogue_datatype_pre pre st) = metaDataMemory st"
  "uncompressedMemSize (epilogue_datatype_pre pre st) = uncompressedMemSize st"
  "numNonResidentItems (epilogue_datatype_pre pre st) = numNonResidentItems st"
  "numTempItems (epilogue_datatype_pre pre st) = numTempItems st"
  "numItems (epilogue_datatype_pre pre st) = numItems st"
  "numSystemItems (epilogue_datatype_pre pre st) = numSystemItems st"
  "numPreparedSyncWrites (epilogue_datatype_pre pre st) = numPreparedSyncWrites st"
  "numDeletedItems (epilogue_datatype_pre pre st) = numDeletedItems st"
  "epStats (epilogue_datatype_pre pre st) = epStats st"
  by (simp_all add: epilogue_datatype_pre_def Let_def)

lemma datatype_post_frame [simp]:
  "cacheSize (epilogue_datatype_post post st) = cacheSize st"
  "memSize (epilogue_datatype_post post st) = memSize st"
  "metaDataMemory (epilogue_datatype_post post st) = metaDataMemory st"
  "uncompressedMemSize (epilogue_datatype_post post st) = uncompressedMemSize st"
  "numNonResidentItems (epilogue_datatype_post post st) = numNonResidentItems st"
  "numTempItems (epilogue_datatype_post post st) = numTempItems st"
  "numItems (epilogue_datatype_post post st) = numItems st"
  "numSystemItems (epilogue_datatype_post post st) = numSystemItems st"
  "numPreparedSyncWrites (epilogue_datatype_post post st) = numPreparedSyncWrites st"
  "numDeletedItems (epilogue_datatype_post post st) = numDeletedItems st"
  "epStats (epilogue_datatype_post post st) = epStats st"
  by (simp_all add: epilogue_datatype_post_def Let_def)

lemma pendingState_prepared:
  "pendingState c = (c = Pending \<or> c = PreparedMaybeVisible)"
  by (cases c) simp_all

lemma snapshot_fields:
  shows snap_size: "pSize (prologue x v) = spec_size x v"
    and snap_metaDataSize: "pMetaDataSize (prologue x v) = spec_metaDataSize x v"
    and snap_uncompressedSize: "pUncompressedSize (prologue x v) = spec_uncompressedSize x v"
    and snap_nonResident:
      "(pIsValid (prologue x v) \<and> (\<not> pIsResident (prologue x v) \<and> \<not> pIsDeleted (prologue x v)
          \<and> \<not> pIsTempItem (prologue x v))) = spec_nonResident v"
    and snap_temp: "pIsTempItem (prologue x v) = spec_temp v"
    and snap_item: "(pIsValid (prologue x v) \<and> \<not> pIsTempItem (prologue x v)) = spec_item v"
    and snap_system: "pIsSystemItem (prologue x v) = spec_system x v"
    and snap_prepared:
      "(pIsValid (prologue x v) \<and> pIsPreparedSyncWrite (prologue x v)) = spec_prepared v"
    and snap_deleted:
      "(pIsDeleted (prologue x v) \<and> \<not> pIsSystemItem (prologue x v)
          \<and> \<not> pIsPreparedSyncWrite (prologue x v)) = spec_deleted x v"
    and snap_datatype:
      "(((pIsValid (prologue x v) \<and> \<not> pIsTempItem (prologue x v)) \<and> \<not> pIsDeleted (prologue x v)
          \<and> \<not> pIsPreparedSyncWrite (prologue x v)) \<and> pDatatype (prologue x v) = d)
         = spec_datatypeCounted v d"
  by (simp_all add: prologue_def defaultProperties_def spec_size_def spec_metaDataSize_def
        spec_uncompressedSize_def spec_nonResident_def spec_temp_def spec_item_def
        spec_system_def spec_prepared_def spec_deleted_def spec_datatypeCounted_def
        spec_isSystem_def spec_isPrepared_def isPending_def pendingState_prepared
        split: option.split)

lemma size_own:
  "cacheSize (epilogue_size (prologue x u) (prologue x v) st)
     = cacheSize st + (spec_size x v - spec_size x u)"
  "memSize (epilogue_size (prologue x u) (prologue x v) st)
     = memSize st + (spec_size x v - spec_size x u)"
  by (simp_all add: epilogue_size_def snap_size)

lemma metaDataSize_own:
  "metaDataMemory (epilogue_metaDataSize (prologue x u) (prologue x v) st)
     = metaDataMemory st + (spec_metaDataSize x v - spec_metaDataSize x u)"
  "currentSize (epStats (epilogue_metaDataSize (prologue x u) (prologue x v) st))
     = currentSize (epStats st) + (spec_metaDataSize x v - spec_metaDataSize x u)"
  by (simp_all add: epilogue_metaDataSize_def snap_metaDataSize)

lemma uncompressedSize_own:
  "uncompressedMemSize (epilogue_uncompressedSize (prologue x u) (prologue x v) st)
     = uncompressedMemSize st + (spec_uncompressedSize x v - spec_uncompressedSize x u)"
  by (simp add: epilogue_uncompressedSize_def snap_uncompressedSize)

lemma nonResident_own:
  "numNonResidentItems (epilogue_nonResident (prologue x u) (prologue x v) st)
     = numNonResidentItems st + (of_bool (spec_nonResident v) - of_bool (spec_nonResident u))"
  unfolding epilogue_nonResident_def Let_def snap_nonResident
  by (cases "spec_nonResident u"; cases "spec_nonResident v") (simp_all add: boolDelta_def)

lemma tempItems_own:
  "numTempItems (epilogue_tempItems (prologue x u) (prologue x v) st)
     = numTempItems st + (of_bool (spec_temp v) - of_bool (spec_temp u))"
  unfolding epilogue_tempItems_def Let_def snap_temp
  by (cases "spec_temp u"; cases "spec_temp v") (simp_all add: boolDelta_def)

lemma numItems_own:
  "numItems (epilogue_numItems (prologue x u) (prologue x v) st)
     = numItems st + (of_bool (spec_item v) - of_bool (spec_item u))"
  unfolding epilogue_numItems_def Let_def snap_item
  by (cases "spec_item u"; cases "spec_item v") (simp_all add: boolDelta_def)

lemma systemItems_own:
  "numSystemItems (epilogue_systemItems (prologue x u) (prologue x v) st)
     = numSystemItems st + (of_bool (spec_system x v) - of_bool (spec_system x u))"
  unfolding epilogue_systemItems_def Let_def snap_system
  by (cases "spec_system x u"; cases "spec_system x v") (simp_all add: boolDelta_def)

lemma prepared_own:
  "numPreparedSyncWrites (epilogue_prepared (prologue x u) (prologue x v) st)
     = numPreparedSyncWrites st + (of_bool (spec_prepared v) - of_bool (spec_prepared u))"
  unfolding epilogue_prepared_def Let_def snap_prepared
  by (cases "spec_prepared u"; cases "spec_prepared v") (simp_all add: boolDelta_def)

lemma deleted_own:
  "numDeletedItems (epilogue_deleted (prologue x u) (prologue x v) st)
     = numDeletedItems st + (of_bool (spec_deleted x v) - of_bool (spec_deleted x u))"
  unfolding epilogue_deleted_def Let_def snap_deleted
  by (cases "spec_deleted x u"; cases "spec_deleted x v") (simp_all add: boolDelta_def)

lemma epilogue_blocks:
  "epilogue x (prologue x u) v st =
     epilogue_datatype_post (prologue x v)
       (epilogue_datatype_pre (prologue x u)
       (epilogue_deleted (prologue x u) (prologue x v)
       (epilogue_prepared (prologue x u) (prologue x v)
       (epilogue_systemItems (prologue x u) (prologue x v)
       (epilogue_numItems (prologue x u) (prologue x v)
       (epilogue_tempItems (prologue x u) (prologue x v)
       (epilogue_nonResident (prologue x u) (prologue x v)
       (epilogue_uncompressedSize (prologue x u) (prologue x v)
       (epilogue_metaDataSize (prologue x u) (prologue x v)
       (epilogue_size (prologue x u) (prologue x v) st))))))))))"
  by (simp only: epilogue_def Let_def prologue_def)

lemma ep_cacheSize:
  "cacheSize (epilogue x (prologue x u) v st) = cacheSize st + (spec_size x v - spec_size x u)"
  by (simp add: epilogue_blocks size_own)

lemma ep_memSize:
  "memSize (epilogue x (prologue x u) v st) = memSize st + (spec_size x v - spec_size x u)"
  by (simp add: epilogue_blocks size_own)

lemma ep_metaDataMemory:
  "metaDataMemory (epilogue x (prologue x u) v st) =
     metaDataMemory st + (spec_metaDataSize x v - spec_metaDataSize x u)"
  by (simp add: epilogue_blocks metaDataSize_own)

lemma ep_currentSize:
  "currentSize (epStats (epilogue x (prologue x u) v st)) =
     currentSize (epStats st) + (spec_metaDataSize x v - spec_metaDataSize x u)"
  by (simp add: epilogue_blocks metaDataSize_own)

lemma ep_uncompressed:
  "uncompressedMemSize (epilogue x (prologue x u) v st) =
     uncompressedMemSize st + (spec_uncompressedSize x v - spec_uncompressedSize x u)"
  by (simp add: epilogue_blocks uncompressedSize_own)

lemma ep_nonResident:
  "numNonResidentItems (epilogue x (prologue x u) v st) =
     numNonResidentItems st + (of_bool (spec_nonResident v) - of_bool (spec_nonResident u))"
  by (simp add: epilogue_blocks nonResident_own)

lemma ep_temp:
  "numTempItems (epilogue x (prologue x u) v st) =
     numTempItems st + (of_bool (spec_temp v) - of_bool (spec_temp u))"
  by (simp add: epilogue_blocks tempItems_own)

lemma ep_numItems:
  "numItems (epilogue x (prologue x u) v st) =
     numItems st + (of_bool (spec_item v) - of_bool (spec_item u))"
  by (simp add: epilogue_blocks numItems_own)

lemma ep_system:
  "numSystemItems (epilogue x (prologue x u) v st) =
     numSystemItems st + (of_bool (spec_system x v) - of_bool (spec_system x u))"
  by (simp add: epilogue_blocks systemItems_own)

lemma ep_prepared:
  "numPreparedSyncWrites (epilogue x (prologue x u) v st) =
     numPreparedSyncWrites st + (of_bool (spec_prepared v) - of_bool (spec_prepared u))"
  by (simp add: epilogue_blocks prepared_own)

lemma ep_deleted:
  "numDeletedItems (epilogue x (prologue x u) v st) =
     numDeletedItems st + (of_bool (spec_deleted x v) - of_bool (spec_deleted x u))"
  by (simp add: epilogue_blocks deleted_own)

lemma datatype_pre_count:
  "datatypeCounts (epilogue_datatype_pre (prologue x u) st) d =
     datatypeCounts st d - of_bool (spec_datatypeCounted u d)"
proof -
  have c: "((pIsValid (prologue x u) \<and> \<not> pIsTempItem (prologue x u)) \<and> \<not> pIsDeleted (prologue x u)
      \<and> \<not> pIsPreparedSyncWrite (prologue x u)) = spec_datatypeCounted u (pDatatype (prologue x u))"
    using snap_datatype [of x u "pDatatype (prologue x u)"] by simp
  show ?thesis
    unfolding epilogue_datatype_pre_def Let_def c
    using snap_datatype [of x u d]
    by (cases "pDatatype (prologue x u) = d") auto
qed

lemma datatype_post_count:
  "datatypeCounts (epilogue_datatype_post (prologue x v) st) d =
     datatypeCounts st d + of_bool (spec_datatypeCounted v d)"
proof -
  have c: "((pIsValid (prologue x v) \<and> \<not> pIsTempItem (prologue x v)) \<and> \<not> pIsDeleted (prologue x v)
      \<and> \<not> pIsPreparedSyncWrite (prologue x v)) = spec_datatypeCounted v (pDatatype (prologue x v))"
    using snap_datatype [of x v "pDatatype (prologue x v)"] by simp
  show ?thesis
    unfolding epilogue_datatype_post_def Let_def c
    using snap_datatype [of x v d]
    by (cases "pDatatype (prologue x v) = d") auto
qed

lemma ep_datatype:
  "datatypeCounts (epilogue x (prologue x u) v st) d =
     datatypeCounts st d - of_bool (spec_datatypeCounted u d) + of_bool (spec_datatypeCounted v d)"
  by (simp add: epilogue_blocks datatype_post_count datatype_pre_count)


text \<open>
  C2. For a mutation between \<open>prologue(sv_pre)\<close> and \<open>epilogue(pre, sv_post)\<close>, either of
  which may be null ("no such value": in no category, every size zero), every counter
  changes by the signed difference of its category between the value before and the
  value after, one up when the value enters the category, one down when it leaves it:
  cache and memory size by the size, the metadata memory and the current size by the
  metadata size, the uncompressed size by the uncompressed size, the non-resident count
  by valid, not resident, not deleted and not temporary, the temporary count by
  temporary, the item count by valid and not temporary, the system count by system, the
  prepared count by valid and prepared, the deleted count by deleted, not system and
  not prepared; the datatype counts lose one at the old datatype and gain one at the new
  one, each only for a valid value that is not temporary, deleted or prepared.
\<close>

theorem statistics_epilogue_delta:
  "(let st' = epilogue x (prologue x sv_pre) sv_post st
    in cacheSize st' = cacheSize st + (spec_size x sv_post - spec_size x sv_pre)
     \<and> memSize st' = memSize st + (spec_size x sv_post - spec_size x sv_pre)
     \<and> metaDataMemory st' =
         metaDataMemory st + (spec_metaDataSize x sv_post - spec_metaDataSize x sv_pre)
     \<and> currentSize (epStats st') =
         currentSize (epStats st) + (spec_metaDataSize x sv_post - spec_metaDataSize x sv_pre)
     \<and> uncompressedMemSize st' =
         uncompressedMemSize st
           + (spec_uncompressedSize x sv_post - spec_uncompressedSize x sv_pre)
     \<and> numNonResidentItems st' =
         numNonResidentItems st
           + (of_bool (spec_nonResident sv_post) - of_bool (spec_nonResident sv_pre))
     \<and> numTempItems st' =
         numTempItems st + (of_bool (spec_temp sv_post) - of_bool (spec_temp sv_pre))
     \<and> numItems st' =
         numItems st + (of_bool (spec_item sv_post) - of_bool (spec_item sv_pre))
     \<and> numSystemItems st' =
         numSystemItems st + (of_bool (spec_system x sv_post) - of_bool (spec_system x sv_pre))
     \<and> numPreparedSyncWrites st' =
         numPreparedSyncWrites st
           + (of_bool (spec_prepared sv_post) - of_bool (spec_prepared sv_pre))
     \<and> numDeletedItems st' =
         numDeletedItems st
           + (of_bool (spec_deleted x sv_post) - of_bool (spec_deleted x sv_pre))
     \<and> datatypeCounts st' =
         (\<lambda>d. datatypeCounts st d - of_bool (spec_datatypeCounted sv_pre d)
                 + of_bool (spec_datatypeCounted sv_post d)))"
proof -
  have dt: "datatypeCounts (epilogue x (prologue x sv_pre) sv_post st) =
         (\<lambda>d. datatypeCounts st d - of_bool (spec_datatypeCounted sv_pre d)
                 + of_bool (spec_datatypeCounted sv_post d))"
    by (rule ext) (simp only: ep_datatype)
  show ?thesis
    unfolding Let_def
    using dt
    by (simp only: ep_cacheSize ep_memSize ep_metaDataMemory ep_currentSize ep_uncompressed
        ep_nonResident ep_temp ep_numItems ep_system ep_prepared ep_deleted simp_thms)
qed

theorem statistics_epilogue_delta_witness:
  "numItems (epilogue simpleExternals (prologue simpleExternals None)
       (Some sampleCommitted) (newStatistics sampleStats)) = 1
   \<and> cacheSize (epilogue simpleExternals (prologue simpleExternals None)
       (Some sampleCommitted) (newStatistics sampleStats)) = 58
   \<and> datatypeCounts (epilogue simpleExternals (prologue simpleExternals None)
       (Some sampleCommitted) (newStatistics sampleStats)) 0 = 1
   \<and> numItems (epilogue simpleExternals (prologue simpleExternals (Some sampleCommitted))
       None (newStatistics sampleStats)) = - 1
   \<and> cacheSize (epilogue simpleExternals (prologue simpleExternals (Some sampleCommitted))
       None (newStatistics sampleStats)) = - 58
   \<and> datatypeCounts (epilogue simpleExternals (prologue simpleExternals (Some sampleCommitted))
       None (newStatistics sampleStats)) 0 = - 1
   \<and> numPreparedSyncWrites (epilogue simpleExternals (prologue simpleExternals None)
       (Some samplePending) (newStatistics sampleStats)) = 1
   \<and> datatypeCounts (epilogue simpleExternals (prologue simpleExternals None)
       (Some samplePending) (newStatistics sampleStats)) 0 = 0
   \<and> numDeletedItems (epilogue simpleExternals (prologue simpleExternals (Some sampleCommitted))
       (Some (sampleCommitted\<lparr> deleted := True \<rparr>)) (newStatistics sampleStats)) = 1
   \<and> numItems (epilogue simpleExternals (prologue simpleExternals (Some sampleCommitted))
       (Some (sampleCommitted\<lparr> deleted := True \<rparr>)) (newStatistics sampleStats)) = 0"
proof -
  have s: "numItems (newStatistics sampleStats) = 0" "cacheSize (newStatistics sampleStats) = 0"
    "datatypeCounts (newStatistics sampleStats) 0 = 0"
    "numPreparedSyncWrites (newStatistics sampleStats) = 0"
    "numDeletedItems (newStatistics sampleStats) = 0"
    by (simp_all add: newStatistics_def)
  have c: "spec_size simpleExternals None = 0" "spec_size simpleExternals (Some sampleCommitted) = 58"
    "\<not> spec_item None" "spec_item (Some sampleCommitted)"
    "spec_item (Some (sampleCommitted\<lparr> deleted := True \<rparr>))"
    "\<not> spec_datatypeCounted None 0" "spec_datatypeCounted (Some sampleCommitted) 0"
    "\<not> spec_datatypeCounted (Some samplePending) 0"
    "\<not> spec_prepared None" "spec_prepared (Some samplePending)"
    "\<not> spec_deleted simpleExternals (Some sampleCommitted)"
    "spec_deleted simpleExternals (Some (sampleCommitted\<lparr> deleted := True \<rparr>))"
    by (simp_all add: spec_size_def spec_item_def spec_datatypeCounted_def spec_prepared_def
        spec_deleted_def spec_isSystem_def spec_isPrepared_def sample_defs)
  from statistics_epilogue_delta [of simpleExternals None "Some sampleCommitted" "newStatistics sampleStats"]
  have a: "numItems (epilogue simpleExternals (prologue simpleExternals None)
       (Some sampleCommitted) (newStatistics sampleStats)) = 1
   \<and> cacheSize (epilogue simpleExternals (prologue simpleExternals None)
       (Some sampleCommitted) (newStatistics sampleStats)) = 58
   \<and> datatypeCounts (epilogue simpleExternals (prologue simpleExternals None)
       (Some sampleCommitted) (newStatistics sampleStats)) 0 = 1"
    by (simp add: Let_def s c)
  from statistics_epilogue_delta [of simpleExternals "Some sampleCommitted" None "newStatistics sampleStats"]
  have b: "numItems (epilogue simpleExternals (prologue simpleExternals (Some sampleCommitted))
       None (newStatistics sampleStats)) = - 1
   \<and> cacheSize (epilogue simpleExternals (prologue simpleExternals (Some sampleCommitted))
       None (newStatistics sampleStats)) = - 58
   \<and> datatypeCounts (epilogue simpleExternals (prologue simpleExternals (Some sampleCommitted))
       None (newStatistics sampleStats)) 0 = - 1"
    by (simp add: Let_def s c)
  from statistics_epilogue_delta [of simpleExternals None "Some samplePending" "newStatistics sampleStats"]
  have p: "numPreparedSyncWrites (epilogue simpleExternals (prologue simpleExternals None)
       (Some samplePending) (newStatistics sampleStats)) = 1
   \<and> datatypeCounts (epilogue simpleExternals (prologue simpleExternals None)
       (Some samplePending) (newStatistics sampleStats)) 0 = 0"
    by (simp add: Let_def s c)
  from statistics_epilogue_delta [of simpleExternals "Some sampleCommitted"
      "Some (sampleCommitted\<lparr> deleted := True \<rparr>)" "newStatistics sampleStats"]
  have d: "numDeletedItems (epilogue simpleExternals (prologue simpleExternals (Some sampleCommitted))
       (Some (sampleCommitted\<lparr> deleted := True \<rparr>)) (newStatistics sampleStats)) = 1
   \<and> numItems (epilogue simpleExternals (prologue simpleExternals (Some sampleCommitted))
       (Some (sampleCommitted\<lparr> deleted := True \<rparr>)) (newStatistics sampleStats)) = 0"
    by (simp add: Let_def s c)
  show ?thesis using a b p d by blast
qed

subsection \<open>Resize\<close>

lemma mset_concat_update:
  "b < length xs \<Longrightarrow> mset (concat (xs[b := v # xs ! b])) = add_mset v (mset (concat xs))"
proof (induction xs arbitrary: b)
  case Nil then show ?case by simp
next
  case (Cons a xs)
  then show ?case by (cases b) simp_all
qed

lemma relink_length:
  "relink x n chain nv = Some nv' \<Longrightarrow> length nv' = length nv"
  by (induction chain arbitrary: nv) (auto split: option.splits if_splits)

lemma relink_mset:
  "relink x n chain nv = Some nv' \<Longrightarrow> mset (concat nv') = mset chain + mset (concat nv)"
proof (induction chain arbitrary: nv)
  case Nil then show ?case by simp
next
  case (Cons v chain)
  then show ?case
    by (auto split: option.splits if_splits simp: mset_concat_update)
qed

lemma placed_update:
  assumes "placed x n nv" and "b < length nv" and "DocKey_hash x (key v) mod n = b"
  shows "placed x n (nv[b := v # nv ! b])"
  unfolding placed_def
proof (intro allI impI ballI)
  fix c w assume c: "c < length (nv[b := v # nv ! b])" and w: "w \<in> set (nv[b := v # nv ! b] ! c)"
  show "DocKey_hash x (key w) mod n = c"
  proof (cases "c = b")
    case True
    with assms c w show ?thesis by (auto simp: placed_def)
  next
    case False
    with assms c w show ?thesis by (auto simp: placed_def)
  qed
qed

lemma relink_placed:
  "relink x n chain nv = Some nv' \<Longrightarrow> placed x n nv \<Longrightarrow> placed x n nv'"
proof (induction chain arbitrary: nv)
  case Nil then show ?case by simp
next
  case (Cons v chain)
  then show ?case
    by (auto split: option.splits if_splits simp: getBucketForHash_def intro: placed_update)
qed

lemma relink_total:
  "0 < n \<Longrightarrow> length nv = n \<Longrightarrow> \<exists>nv'. relink x n chain nv = Some nv'"
  by (induction chain arbitrary: nv) (auto simp: getBucketForHash_def)

lemma rebucket_length:
  "rebucket x n vals i r nv = Some nv' \<Longrightarrow> length nv' = length nv"
  by (induction r arbitrary: i nv) (auto split: option.splits if_splits dest: relink_length)

lemma rebucket_mset:
  "rebucket x n vals i r nv = Some nv' \<Longrightarrow>
     mset (concat nv') = mset (concat (take r (drop i vals))) + mset (concat nv)"
proof (induction r arbitrary: i nv)
  case 0 then show ?case by simp
next
  case (Suc r)
  from Suc.prems have i: "i < length vals" by (auto split: if_splits)
  from Suc.prems i obtain nv1 where r1: "relink x n (vals ! i) nv = Some nv1"
    and r2: "rebucket x n vals (Suc i) r nv1 = Some nv'"
    by (auto split: option.splits)
  have d: "drop i vals = vals ! i # drop (Suc i) vals"
    using i by (simp add: Cons_nth_drop_Suc)
  show ?case
    using Suc.IH [OF r2] relink_mset [OF r1] by (simp add: d)
qed

lemma rebucket_placed:
  "rebucket x n vals i r nv = Some nv' \<Longrightarrow> placed x n nv \<Longrightarrow> placed x n nv'"
  by (induction r arbitrary: i nv) (auto split: option.splits if_splits dest: relink_placed)

lemma rebucket_total:
  "0 < n \<Longrightarrow> length nv = n \<Longrightarrow> i + r \<le> length vals \<Longrightarrow> \<exists>nv'. rebucket x n vals i r nv = Some nv'"
proof (induction r arbitrary: i nv)
  case 0 then show ?case by simp
next
  case (Suc r)
  from relink_total [OF Suc.prems(1,2)] obtain nv1 where r1: "relink x n (vals ! i) nv = Some nv1"
    by blast
  have "length nv1 = n" using relink_length [OF r1] Suc.prems by simp
  from Suc.IH [OF Suc.prems(1) this, of "Suc i"] Suc.prems(3) r1 show ?case by simp
qed

lemma placed_replicate: "placed x n (replicate m [])"
  by (simp add: placed_def)

lemma tuples_addMemOverhead [simp]: "tuples (addMemOverhead d ht) = tuples ht"
  "ht_values (addMemOverhead d ht) = ht_values ht"
  "ht_size (addMemOverhead d ht) = ht_size ht" "numResizes (addMemOverhead d ht) = numResizes ht"
  "activeState (addMemOverhead d ht) = activeState ht" "visitors (addMemOverhead d ht) = visitors ht"
  by (simp_all add: tuples_def addMemOverhead_def)

lemma addMemOverhead_fields [simp]:
  "ht_values (addMemOverhead d ht) = ht_values ht"
  "ht_size (addMemOverhead d ht) = ht_size ht"
  "numResizes (addMemOverhead d ht) = numResizes ht"
  "activeState (addMemOverhead d ht) = activeState ht"
  "visitors (addMemOverhead d ht) = visitors ht"
  by (simp_all add: addMemOverhead_def)

lemma resize_rebuckets:
  assumes "activeState ht" and "newSize \<le> INT_MAX" and "newSize \<noteq> ht_size ht"
    and "visitors ht = 0"
  shows "resize x ht newSize =
     (case rebucket x newSize (ht_values ht) 0 (ht_size ht) (replicate newSize []) of
        None \<Rightarrow> Inl (undefined_behaviour,
                  (addMemOverhead (- memorySize x (ht_size ht)) ht)
                    \<lparr> numResizes := Suc (numResizes ht), ht_size := newSize \<rparr>)
      | Some nv \<Rightarrow> Inr ((), addMemOverhead (memorySize x newSize)
                  ((addMemOverhead (- memorySize x (ht_size ht)) ht)
                    \<lparr> numResizes := Suc (numResizes ht), ht_size := newSize,
                       ht_values := nv \<rparr>)))"
  using assms by (simp add: resize_def Let_def split: option.splits)

text \<open>
  C3. When \<open>resize(newSize)\<close> gets to the rebucketing (table active, new size within the
  cap and different from the current one, no visitor in flight), the multiset of
  \<open>(key, cas, committed_state)\<close> over all chains is the same afterwards, the table has
  \<open>newSize\<close> buckets, and every value is in the bucket of its key's hash modulo
  \<open>newSize\<close>. With at least one new bucket the call returns. The table has one chain for
  each of its \<open>size\<close> buckets, as the constructor and \<open>resize\<close> leave it.
\<close>

theorem resize_preserves_entries:
  assumes "activeState ht" and "newSize \<le> INT_MAX" and "newSize \<noteq> ht_size ht"
    and "visitors ht = 0" and "length (ht_values ht) = ht_size ht"
  shows "(0 < newSize \<longrightarrow> (\<exists>ht'. resize x ht newSize = Inr ((), ht')))
       \<and> (\<forall>ht'. resize x ht newSize = Inr ((), ht') \<longrightarrow>
            tuples ht' = tuples ht \<and> ht_size ht' = newSize
            \<and> length (ht_values ht') = newSize
            \<and> (\<forall>b < newSize. \<forall>v \<in> set (ht_values ht' ! b).
                  DocKey_hash x (key v) mod newSize = b))"
proof (intro conjI)
  note rs = resize_rebuckets [OF assms(1-4), of x]
  show "0 < newSize \<longrightarrow> (\<exists>ht'. resize x ht newSize = Inr ((), ht'))"
  proof
    assume pos: "0 < newSize"
    from rebucket_total [OF pos, of "replicate newSize []" 0 "ht_size ht" "ht_values ht" x] assms(5)
    obtain nv where "rebucket x newSize (ht_values ht) 0 (ht_size ht) (replicate newSize []) = Some nv"
      by auto
    then show "\<exists>ht'. resize x ht newSize = Inr ((), ht')"
      by (simp add: rs)
  qed
  show "\<forall>ht'. resize x ht newSize = Inr ((), ht') \<longrightarrow>
            tuples ht' = tuples ht \<and> ht_size ht' = newSize
            \<and> length (ht_values ht') = newSize
            \<and> (\<forall>b < newSize. \<forall>v \<in> set (ht_values ht' ! b).
                  DocKey_hash x (key v) mod newSize = b)"
  proof (intro allI impI)
    fix ht' assume r: "resize x ht newSize = Inr ((), ht')"
    from r obtain nv where
      nv: "rebucket x newSize (ht_values ht) 0 (ht_size ht) (replicate newSize []) = Some nv"
      and ht': "ht' = addMemOverhead (memorySize x newSize)
          ((addMemOverhead (- memorySize x (ht_size ht)) ht)
            \<lparr> numResizes := Suc (numResizes ht), ht_size := newSize, ht_values := nv \<rparr>)"
      by (auto simp: rs split: option.splits)
    have len: "length nv = newSize" using rebucket_length [OF nv] by simp
    have ms: "mset (concat nv) = mset (concat (ht_values ht))"
      using rebucket_mset [OF nv] assms(5) by simp
    have pl: "placed x newSize nv" using rebucket_placed [OF nv placed_replicate] .
    have "\<forall>b < newSize. \<forall>v \<in> set (ht_values ht' ! b). DocKey_hash x (key v) mod newSize = b"
      using pl len by (auto simp: ht' placed_def)
    moreover have "tuples ht' = tuples ht" using ms by (simp add: ht' tuples_def)
    moreover have "ht_size ht' = newSize" by (simp add: ht')
    moreover have "length (ht_values ht') = newSize" by (simp add: ht' len)
    ultimately show "tuples ht' = tuples ht \<and> ht_size ht' = newSize
            \<and> length (ht_values ht') = newSize
            \<and> (\<forall>b < newSize. \<forall>v \<in> set (ht_values ht' ! b).
                  DocKey_hash x (key v) mod newSize = b)"
      by blast
  qed
qed

theorem resize_preserves_entries_witness:
  "activeState (sampleTable [samplePending, sampleCommitted])
   \<and> 7 \<le> INT_MAX
   \<and> 7 \<noteq> ht_size (sampleTable [samplePending, sampleCommitted])
   \<and> visitors (sampleTable [samplePending, sampleCommitted]) = 0
   \<and> length (ht_values (sampleTable [samplePending, sampleCommitted]))
       = ht_size (sampleTable [samplePending, sampleCommitted])
   \<and> (\<exists>ht'. resize simpleExternals (sampleTable [samplePending, sampleCommitted]) 7 = Inr ((), ht')
         \<and> tuples ht' = {# (sampleKey, 11, Pending), (sampleKey, 10, CommittedViaMutation) #}
         \<and> ht_size ht' = 7
         \<and> (\<forall>b < 7. \<forall>v \<in> set (ht_values ht' ! b). DocKey_hash simpleExternals (key v) mod 7 = b))"
proof -
  let ?t = "sampleTable [samplePending, sampleCommitted]"
  have h1: "activeState ?t" by (simp add: sample_defs)
  have h2: "7 \<le> INT_MAX" by (simp add: INT_MAX_def)
  have h3: "7 \<noteq> ht_size ?t" by (simp add: sample_defs)
  have h4: "visitors ?t = 0" by (simp add: sample_defs)
  have h5: "length (ht_values ?t) = ht_size ?t" by (simp add: sample_defs)
  have tp: "tuples ?t = {# (sampleKey, 11, Pending), (sampleKey, 10, CommittedViaMutation) #}"
    by (simp add: tuples_def sample_defs)
  from resize_preserves_entries [OF h1 h2 h3 h4 h5, of simpleExternals]
  show ?thesis using h1 h2 h3 h4 h5 tp by auto
qed

text \<open>
  C4. On an active table \<open>resize(newSize)\<close> returns with the table as it was (size,
  chains and \<open>numResizes\<close> included) when the new size is above the cap, when it is the
  current size, and when a visitor is in flight; in the last case the same call on the
  table without visitors goes on to change the size.
\<close>

theorem resize_noop_guards:
  assumes "activeState ht"
  shows "(INT_MAX < newSize \<longrightarrow> resize x ht newSize = Inr ((), ht))
       \<and> (newSize = ht_size ht \<longrightarrow> resize x ht newSize = Inr ((), ht))
       \<and> (0 < visitors ht \<longrightarrow> resize x ht newSize = Inr ((), ht))
       \<and> (0 < visitors ht \<and> newSize \<le> INT_MAX \<and> newSize \<noteq> ht_size ht \<and> 0 < newSize
            \<and> length (ht_values ht) = ht_size ht \<longrightarrow>
          (\<exists>ht'. resize x (ht\<lparr> visitors := 0 \<rparr>) newSize = Inr ((), ht')
                \<and> ht_size ht' = newSize \<and> numResizes ht' = Suc (numResizes ht)))"
proof (intro conjI impI)
  show "resize x ht newSize = Inr ((), ht)" if "INT_MAX < newSize"
    using that assms by (simp add: resize_def)
  show "resize x ht newSize = Inr ((), ht)" if "newSize = ht_size ht"
    using that assms by (simp add: resize_def)
  show "resize x ht newSize = Inr ((), ht)" if "0 < visitors ht"
    using that assms by (simp add: resize_def)
  show "\<exists>ht'. resize x (ht\<lparr> visitors := 0 \<rparr>) newSize = Inr ((), ht')
                \<and> ht_size ht' = newSize \<and> numResizes ht' = Suc (numResizes ht)"
    if h: "0 < visitors ht \<and> newSize \<le> INT_MAX \<and> newSize \<noteq> ht_size ht \<and> 0 < newSize
            \<and> length (ht_values ht) = ht_size ht"
  proof -
    let ?h = "ht\<lparr> visitors := 0 \<rparr>"
    have rs: "resize x ?h newSize =
     (case rebucket x newSize (ht_values ?h) 0 (ht_size ?h) (replicate newSize []) of
        None \<Rightarrow> Inl (undefined_behaviour,
                  (addMemOverhead (- memorySize x (ht_size ?h)) ?h)
                    \<lparr> numResizes := Suc (numResizes ?h), ht_size := newSize \<rparr>)
      | Some nv \<Rightarrow> Inr ((), addMemOverhead (memorySize x newSize)
                  ((addMemOverhead (- memorySize x (ht_size ?h)) ?h)
                    \<lparr> numResizes := Suc (numResizes ?h), ht_size := newSize,
                       ht_values := nv \<rparr>)))"
      using assms h by (intro resize_rebuckets) simp_all
    from h have "0 < newSize" and "0 + ht_size ht \<le> length (ht_values ht)" by simp_all
    from rebucket_total [OF this(1) _ this(2), of "replicate newSize []" x]
    obtain nv where "rebucket x newSize (ht_values ht) 0 (ht_size ht) (replicate newSize []) = Some nv"
      by auto
    then show ?thesis by (simp add: rs)
  qed
qed

theorem resize_noop_guards_witness:
  "activeState (sampleTable [sampleCommitted])
   \<and> INT_MAX < 2147483648
   \<and> resize simpleExternals (sampleTable [sampleCommitted]) 2147483648
       = Inr ((), sampleTable [sampleCommitted])
   \<and> 3 = ht_size (sampleTable [sampleCommitted])
   \<and> resize simpleExternals (sampleTable [sampleCommitted]) 3
       = Inr ((), sampleTable [sampleCommitted])
   \<and> activeState ((sampleTable [sampleCommitted])\<lparr> visitors := 2 \<rparr>)
   \<and> 0 < visitors ((sampleTable [sampleCommitted])\<lparr> visitors := 2 \<rparr>)
   \<and> resize simpleExternals ((sampleTable [sampleCommitted])\<lparr> visitors := 2 \<rparr>) 7
       = Inr ((), (sampleTable [sampleCommitted])\<lparr> visitors := 2 \<rparr>)
   \<and> (\<exists>ht'. resize simpleExternals (sampleTable [sampleCommitted]) 7 = Inr ((), ht')
          \<and> ht_size ht' = 7 \<and> numResizes ht' = 1)"
proof -
  let ?t = "sampleTable [sampleCommitted]"
  let ?v = "?t\<lparr> visitors := 2 \<rparr>"
  have a: "activeState ?t" and av: "activeState ?v" by (simp_all add: sample_defs)
  have c1: "INT_MAX < 2147483648" by (simp add: INT_MAX_def)
  have c2: "3 = ht_size ?t" by (simp add: sample_defs)
  have c3: "0 < visitors ?v" by simp
  have c4: "0 < visitors ?v \<and> 7 \<le> INT_MAX \<and> 7 \<noteq> ht_size ?v \<and> (0::nat) < 7
      \<and> length (ht_values ?v) = ht_size ?v"
    by (simp add: sample_defs INT_MAX_def)
  have e: "?v\<lparr> visitors := 0 \<rparr> = ?t" by (simp add: sample_defs)
  have n: "numResizes ?v = 0" by (simp add: sample_defs)
  from resize_noop_guards [OF a, of 2147483648 simpleExternals] c1
  have r1: "resize simpleExternals ?t 2147483648 = Inr ((), ?t)" by blast
  from resize_noop_guards [OF a, of 3 simpleExternals] c2
  have r2: "resize simpleExternals ?t 3 = Inr ((), ?t)" by blast
  from resize_noop_guards [OF av, of 7 simpleExternals] c3
  have r3: "resize simpleExternals ?v 7 = Inr ((), ?v)" by blast
  from resize_noop_guards [OF av, of 7 simpleExternals] c4
  have r4: "\<exists>ht'. resize simpleExternals (?v\<lparr> visitors := 0 \<rparr>) 7 = Inr ((), ht')
          \<and> ht_size ht' = 7 \<and> numResizes ht' = Suc (numResizes ?v)" by blast
  then have r4': "\<exists>ht'. resize simpleExternals ?t 7 = Inr ((), ht')
          \<and> ht_size ht' = 7 \<and> numResizes ht' = 1" by (simp only: e n One_nat_def)
  show ?thesis using a av c1 c2 c3 r1 r2 r3 r4' by blast
qed

subsection \<open>Size selection\<close>

lemma table_eq: "prime_size_table = map int spec_primes @ [-1]"
  by (simp add: prime_size_table_def spec_primes_def)

lemma primes_sorted: "sorted spec_primes"
  by (simp add: spec_primes_def)

lemma primes_pos: "\<forall>p \<in> set spec_primes. 0 < p"
  by (simp add: spec_primes_def)

lemma primes_nonempty: "spec_primes \<noteq> []"
  by (simp add: spec_primes_def)

lemma prime_walk_takeWhile:
  "\<forall>p \<in> set ps. 0 < p \<Longrightarrow>
     prime_walk (ps @ [-1]) t i = i + length (takeWhile (\<lambda>p. p < t) ps)"
  by (induction ps arbitrary: i) auto

lemma primes_bound: "\<forall>p \<in> set spec_primes. p < 2 ^ 31"
  by (simp add: spec_primes_def)

lemma to_ssize_t_small: "n < 2 ^ 63 \<Longrightarrow> to_ssize_t n = int n"
  unfolding to_ssize_t_def
  by (simp add: signed_of_nat signed_take_bit_int_eq_self)

lemma to_size_t_small: "0 \<le> z \<Longrightarrow> z < 2 ^ 64 \<Longrightarrow> to_size_t z = nat z"
  unfolding to_size_t_def
  by (simp add: unat_eq_nat_uint uint_word_of_int take_bit_int_eq_self)

lemma to_ssize_t_big:
  assumes "2 ^ 63 \<le> n" "n < 2 ^ 64"
  shows "to_ssize_t n < 0"
proof -
  have "n div 2 ^ 63 = 1" using assms by (intro div_nat_eqI) simp_all
  then have "bit n 63" by (simp add: bit_iff_odd)
  then have "bit (word_of_nat n :: 64 word) 63" by (simp add: bit_of_nat_iff)
  then show ?thesis unfolding to_ssize_t_def
    using bit_last_iff [of "word_of_nat n :: 64 word"] by simp
qed

lemma to_ssize_t_eq:
  assumes "n < 2 ^ 64" "0 \<le> a" "a < 2 ^ 63"
  shows "(to_ssize_t n = a) = (int n = a)"
proof (cases "n < 2 ^ 63")
  case True then show ?thesis by (simp add: to_ssize_t_small)
next
  case False
  then have "to_ssize_t n < 0" using assms by (intro to_ssize_t_big) simp_all
  moreover have "int n \<ge> 2 ^ 63" using False by simp
  ultimately show ?thesis using assms by linarith
qed

lemma to_size_t_prime: "p \<in> set spec_primes \<Longrightarrow> to_size_t (int p) = p"
proof -
  assume "p \<in> set spec_primes"
  then have "p < 2 ^ 31" using primes_bound by blast
  then have "int p < 2 ^ 64" by simp
  then show ?thesis by (simp add: to_size_t_small)
qed

lemma isCurrently_primes:
  assumes "cur < 2 ^ 64" "q \<in> set spec_primes" "p \<in> set spec_primes"
  shows "isCurrently cur (int q) (int p) = (cur = q \<or> cur = p)"
proof -
  have "q < 2 ^ 31" "p < 2 ^ 31" using assms primes_bound by blast+
  then have "int q < 2 ^ 63" "int p < 2 ^ 63" by simp_all
  then have "(to_ssize_t cur = int q) = (int cur = int q)"
    "(to_ssize_t cur = int p) = (int cur = int p)"
    using assms(1) by (simp_all add: to_ssize_t_eq)
  then show ?thesis by (simp add: isCurrently_def Let_def)
qed

lemma walk_index:
  "n < 2 ^ 63 \<Longrightarrow>
   prime_walk prime_size_table (to_ssize_t n) 0 = length (takeWhile (\<lambda>p. p < n) spec_primes)"
proof -
  assume "n < 2 ^ 63"
  then have t: "to_ssize_t n = int n" by (rule to_ssize_t_small)
  have "\<forall>p \<in> set (map int spec_primes). 0 < p" using primes_pos by simp
  then show ?thesis
    unfolding t by (simp add: table_eq prime_walk_takeWhile takeWhile_map comp_def)
qed

lemma find_ge:
  "List.find (\<lambda>p. (n::nat) \<le> p) ps =
     (case dropWhile (\<lambda>p. p < n) ps of [] \<Rightarrow> None | p # _ \<Rightarrow> Some p)"
  by (induction ps) auto

lemma find_lt_rev:
  "sorted ps \<Longrightarrow> List.find (\<lambda>q. q < n) (rev ps) =
     (if takeWhile (\<lambda>p. p < n) ps = [] then None else Some (last (takeWhile (\<lambda>p. p < (n::nat)) ps)))"
proof (induction ps rule: rev_induct)
  case Nil then show ?case by simp
next
  case (snoc a ps)
  have s: "sorted ps" and le: "\<forall>p \<in> set ps. p \<le> a"
    using snoc.prems by (auto simp: sorted_append)
  show ?case
  proof (cases "a < n")
    case True
    then have "\<forall>p \<in> set ps. p < n" using le by auto
    then have "takeWhile (\<lambda>p. p < n) (ps @ [a]) = ps @ [a]" using True
      by (simp add: takeWhile_append2)
    with True show ?thesis by simp
  next
    case False
    have "takeWhile (\<lambda>p. p < n) (ps @ [a]) = takeWhile (\<lambda>p. p < n) ps"
    proof (cases "\<forall>p \<in> set ps. p < n")
      case True
      then have a2: "takeWhile (\<lambda>p. p < n) ps = ps" by (simp add: takeWhile_eq_all_conv)
      have a1: "takeWhile (\<lambda>p. p < n) (ps @ [a]) = ps"
        using True \<open>\<not> a < n\<close> by (simp add: takeWhile_append2)
      show ?thesis by (simp only: a1 a2)
    next
      case False
      then obtain q where "q \<in> set ps" "\<not> q < n" by blast
      then show ?thesis by (simp add: takeWhile_append1)
    qed
    with False snoc.IH [OF s] show ?thesis by simp
  qed
qed

lemma nearest_closest:
  "q < n \<Longrightarrow> n \<le> p \<Longrightarrow>
     (nearest n q p = q \<or> nearest n q p = p)
     \<and> \<bar>int n - int (nearest n q p)\<bar> \<le> \<bar>int n - int q\<bar>
     \<and> \<bar>int n - int (nearest n q p)\<bar> \<le> \<bar>int n - int p\<bar>"
  by (auto simp: nearest_def distance_def)


lemma resize_new_size_beyond_ssize_t:
  "to_ssize_t 9223372036854775808 < 0"
  "resize_new_size 9223372036854775808 3 7 = 3"
  by (simp_all add: resize_new_size_def prime_size_table_def to_ssize_t_def to_size_t_def)

text \<open>
  C5. \<open>resize()\<close> calls \<open>resize(new_size)\<close> with the size chosen from the prime table for
  the current number of in-memory items: the smallest prime not below that number, the
  largest prime when the table is exhausted, the initial size when the prime is below
  it, the current size when it is one of the two primes around the number, and else the
  nearer of the two. The number of items and the initial size are in the range of
  \<open>ssize_t\<close>, to which the code casts them, and the current size in that of \<open>size_t\<close>;
  beyond \<open>2^63\<close> the cast gives a negative target and the walk ends at the first prime.
\<close>

theorem resize_size_selection:
  assumes "getNumInMemoryItems ht < 2 ^ 63"
    and "initialSize ht < 2 ^ 63"
    and "ht_size ht < 2 ^ 64"
  shows "resize_noarg x ht =
           resize x ht (resize_new_size (getNumInMemoryItems ht) (initialSize ht) (ht_size ht))
   \<and> spec_chosen_size (getNumInMemoryItems ht) (initialSize ht) (ht_size ht)
       (resize_new_size (getNumInMemoryItems ht) (initialSize ht) (ht_size ht))"
proof -
  have ok: "spec_chosen_size n initSize cur (resize_new_size n initSize cur)"
    if nb: "n < 2 ^ 63" and ib: "initSize < 2 ^ 63" and cb: "cur < 2 ^ 64"
    for n initSize cur :: nat
  proof -
    define tw where "tw = takeWhile (\<lambda>p. p < n) spec_primes"
    define dw where "dw = dropWhile (\<lambda>p. p < n) spec_primes"
    define i where "i = length tw"
    have split: "spec_primes = tw @ dw" by (simp add: tw_def dw_def)
    have wi: "prime_walk prime_size_table (to_ssize_t n) 0 = i"
      using nb by (simp add: walk_index i_def tw_def)
    have ci: "to_ssize_t initSize = int initSize" using ib by (rule to_ssize_t_small)
    have fl: "List.find (\<lambda>q. q < n) (rev spec_primes) = (if tw = [] then None else Some (last tw))"
      using find_lt_rev [OF primes_sorted, of n] by (simp add: tw_def)
    have fg: "List.find (\<lambda>p. n \<le> p) spec_primes = (case dw of [] \<Rightarrow> None | p # _ \<Rightarrow> Some p)"
      by (simp add: find_ge dw_def)
    have tw_lt: "\<forall>q \<in> set tw. q < n" unfolding tw_def by (auto dest: set_takeWhileD)
    show ?thesis
    proof (cases dw)
      case Nil
      then have all: "spec_primes = tw" using split by simp
      then have "tw \<noteq> []" using primes_nonempty by simp
      then have ipos: "0 < i" by (simp add: i_def)
      have ti: "prime_size_table ! i = -1"
        by (simp add: table_eq all i_def nth_append)
      have "last tw \<in> set spec_primes" using \<open>tw \<noteq> []\<close> all by simp
      then have cl: "to_size_t (int (last tw)) = last tw" by (rule to_size_t_prime)
      have "prime_size_table ! (i - 1) = int (last tw)"
        using ipos \<open>tw \<noteq> []\<close> by (simp add: table_eq all i_def nth_append last_conv_nth)
      then have "resize_new_size n initSize cur = last spec_primes"
        using ti wi all cl by (simp add: resize_new_size_def Let_def)
      then show ?thesis using Nil fg by (simp add: spec_chosen_size_def)
    next
      case (Cons p rest)
      have "dropWhile (\<lambda>p. p < n) spec_primes \<noteq> []" using Cons by (simp add: dw_def)
      from hd_dropWhile [OF this] have pge: "n \<le> p" using Cons by (simp add: dw_def)
      have pin: "p \<in> set spec_primes" by (subst split) (simp add: Cons)
      then have ppos: "0 < p" using primes_pos by blast
      have cp: "to_size_t (int p) = p" using pin by (rule to_size_t_prime)
      have ti: "prime_size_table ! i = int p"
        by (simp add: table_eq split Cons i_def nth_append)
      then have ne: "prime_size_table ! i \<noteq> -1" using ppos by simp
      show ?thesis
      proof (cases "p < initSize")
        case True
        then show ?thesis using ti ne wi ci fg Cons
          by (simp add: resize_new_size_def Let_def spec_chosen_size_def)
      next
        case False
        show ?thesis
        proof (cases "i = 0")
          case True
          then have "tw = []" by (simp add: i_def)
          then show ?thesis using True False ti ne wi ci cp fg fl Cons
            by (simp add: resize_new_size_def Let_def spec_chosen_size_def)
        next
          case inz: False
          then have twne: "tw \<noteq> []" by (simp add: i_def)
          define q where "q = last tw"
          have qlt: "q < n" using tw_lt twne by (simp add: q_def)
          have qin: "q \<in> set spec_primes" by (subst split) (simp add: q_def twne)
          have cq: "to_size_t (int q) = q" using qin by (rule to_size_t_prime)
          have tq: "prime_size_table ! (i - 1) = int q"
            using inz twne by (simp add: table_eq split i_def nth_append last_conv_nth q_def)
          have flq: "List.find (\<lambda>q. q < n) (rev spec_primes) = Some q"
            using fl twne by (simp add: q_def)
          have fgp: "List.find (\<lambda>p. n \<le> p) spec_primes = Some p" using fg Cons by simp
          have icur: "isCurrently cur (int q) (int p) = (cur = q \<or> cur = p)"
            using cb qin pin by (rule isCurrently_primes)
          show ?thesis
          proof (cases "cur = q \<or> cur = p")
            case True
            then have "isCurrently cur (int q) (int p)" by (simp add: icur)
            then have "resize_new_size n initSize cur = cur"
              using wi ci ti tq ne False inz by (simp add: resize_new_size_def Let_def)
            then show ?thesis using True False flq fgp by (simp add: spec_chosen_size_def)
          next
            case nc: False
            then have "\<not> isCurrently cur (int q) (int p)" by (simp add: icur)
            then have "resize_new_size n initSize cur = nearest n q p"
              using wi ci cp cq ti tq ne False inz by (simp add: resize_new_size_def Let_def)
            then show ?thesis using nc False flq fgp nearest_closest [OF qlt pge]
              by (simp add: spec_chosen_size_def)
          qed
        qed
      qed
    qed
  qed
  show ?thesis using ok [OF assms] by (simp add: resize_noarg_def)
qed

theorem resize_size_selection_witness:
  "getNumInMemoryItems sampleTen < 2 ^ 63
   \<and> initialSize sampleTen < 2 ^ 63
   \<and> ht_size sampleTen < 2 ^ 64
   \<and> getNumInMemoryItems sampleTen = 10
   \<and> initialSize sampleTen = 3
   \<and> ht_size sampleTen = 3
   \<and> resize_noarg simpleExternals sampleTen = resize simpleExternals sampleTen 13
   \<and> spec_chosen_size 10 3 3 13"
proof -
  have f: "getNumInMemoryItems sampleTen = 10" "initialSize sampleTen = 3"
    "ht_size sampleTen = 3"
    by (simp_all add: sampleTen_def getNumInMemoryItems_def sampleTable_def newHashTable_def)
  have r: "resize_new_size 10 3 3 = 13"
    by (simp add: resize_new_size_def prime_size_table_def to_ssize_t_def to_size_t_def
        isCurrently_def nearest_def distance_def)
  have b: "getNumInMemoryItems sampleTen < 2 ^ 63" "initialSize sampleTen < 2 ^ 63"
    "ht_size sampleTen < 2 ^ 64"
    by (simp_all add: f)
  from resize_size_selection [OF b, of simpleExternals]
  have "resize_noarg simpleExternals sampleTen = resize simpleExternals sampleTen 13
      \<and> spec_chosen_size 10 3 3 13"
    unfolding f r .
  with b f show ?thesis by simp
qed

subsection \<open>Lookups\<close>

lemma committedOf_simps [simp]:
  "committedOf k [] = []"
  "committedOf k (v # vs) = (if hasKey v k \<and> \<not> isPending v then v # committedOf k vs else committedOf k vs)"
  by (simp_all add: committedOf_def)

lemma pendingOf_simps [simp]:
  "pendingOf k [] = []"
  "pendingOf k (v # vs) = (if hasKey v k \<and> isPending v then v # pendingOf k vs else pendingOf k vs)"
  by (simp_all add: pendingOf_def)

lemma scan_result:
  "findInner_scan k vs i c p = Some (c', p') \<Longrightarrow>
     (if c' = c then committedOf k vs = []
      else c = None \<and> (\<exists>j < length vs. c' = Some (i + j) \<and> committedOf k vs = [vs ! j]))
   \<and> (if p' = p then pendingOf k vs = []
      else p = None \<and> (\<exists>j < length vs. p' = Some (i + j) \<and> pendingOf k vs = [vs ! j]))"
proof (induction vs arbitrary: i c p)
  case Nil
  then show ?case by simp
next
  case (Cons v vs)
  show ?case
  proof (cases "hasKey v k")
    case False
    with Cons.prems have "findInner_scan k vs (Suc i) c p = Some (c', p')" by simp
    from Cons.IH [OF this] False show ?thesis
      by (auto split: if_splits intro: exI [of _ "Suc j" for j])
  next
    case hk: True
    show ?thesis
    proof (cases "isPending v")
      case True
      with hk Cons.prems have pn: "p = None"
        and r: "findInner_scan k vs (Suc i) c (Some i) = Some (c', p')"
        by (auto split: if_splits)
      from Cons.IH [OF r] have pp: "p' = Some i" and pe: "pendingOf k vs = []"
        and cc: "if c' = c then committedOf k vs = []
          else c = None \<and> (\<exists>j < length vs. c' = Some (Suc i + j) \<and> committedOf k vs = [vs ! j])"
        by (auto split: if_splits)
      have "\<exists>j < length (v # vs). p' = Some (i + j) \<and> pendingOf k (v # vs) = [(v # vs) ! j]"
        using pp pe hk True by (intro exI [of _ 0]) simp
      moreover have "if c' = c then committedOf k (v # vs) = []
          else c = None \<and> (\<exists>j < length (v # vs). c' = Some (i + j) \<and> committedOf k (v # vs) = [(v # vs) ! j])"
        using cc True by (auto split: if_splits intro: exI [of _ "Suc j" for j])
      ultimately show ?thesis using pn pp by simp
    next
      case False
      with hk Cons.prems have cn: "c = None"
        and r: "findInner_scan k vs (Suc i) (Some i) p = Some (c', p')"
        by (auto split: if_splits)
      from Cons.IH [OF r] have cc: "c' = Some i" and ce: "committedOf k vs = []"
        and pp: "if p' = p then pendingOf k vs = []
          else p = None \<and> (\<exists>j < length vs. p' = Some (Suc i + j) \<and> pendingOf k vs = [vs ! j])"
        by (auto split: if_splits)
      have "\<exists>j < length (v # vs). c' = Some (i + j) \<and> committedOf k (v # vs) = [(v # vs) ! j]"
        using cc ce hk False by (intro exI [of _ 0]) simp
      moreover have "if p' = p then pendingOf k (v # vs) = []
          else p = None \<and> (\<exists>j < length (v # vs). p' = Some (i + j) \<and> pendingOf k (v # vs) = [(v # vs) ! j])"
        using pp False by (auto split: if_splits intro: exI [of _ "Suc j" for j])
      ultimately show ?thesis using cn cc by simp
    qed
  qed
qed

lemma scan_total:
  "length (committedOf k vs) \<le> (if c = None then 1 else 0) \<Longrightarrow>
   length (pendingOf k vs) \<le> (if p = None then 1 else 0) \<Longrightarrow>
   \<exists>r. findInner_scan k vs i c p = Some r"
proof (induction vs arbitrary: i c p)
  case Nil
  then show ?case by simp
next
  case (Cons v vs)
  show ?case
  proof (cases "hasKey v k")
    case False
    with Cons.prems Cons.IH [of c p "Suc i"] show ?thesis by simp
  next
    case hk: True
    show ?thesis
    proof (cases "isPending v")
      case True
      with hk Cons.prems have pn: "p = None" and pe: "length (pendingOf k vs) \<le> 0"
        and ce: "length (committedOf k vs) \<le> (if c = None then 1 else 0)"
        by (auto split: if_splits)
      from Cons.IH [of c "Some i" "Suc i"] pe ce
      show ?thesis using hk True pn by simp
    next
      case False
      with hk Cons.prems have cn: "c = None" and ce: "length (committedOf k vs) \<le> 0"
        and pe: "length (pendingOf k vs) \<le> (if p = None then 1 else 0)"
        by (auto split: if_splits)
      from Cons.IH [of "Some i" p "Suc i"] pe ce
      show ?thesis using hk False cn by simp
    qed
  qed
qed

lemma scan_fails:
  "findInner_scan k vs i c p = None \<longleftrightarrow>
     \<not> (length (committedOf k vs) \<le> (if c = None then 1 else 0)
        \<and> length (pendingOf k vs) \<le> (if p = None then 1 else 0))"
proof
  assume "findInner_scan k vs i c p = None"
  then show "\<not> (length (committedOf k vs) \<le> (if c = None then 1 else 0)
        \<and> length (pendingOf k vs) \<le> (if p = None then 1 else 0))"
    using scan_total [of k vs c p i] by auto
next
  assume a: "\<not> (length (committedOf k vs) \<le> (if c = None then 1 else 0)
        \<and> length (pendingOf k vs) \<le> (if p = None then 1 else 0))"
  show "findInner_scan k vs i c p = None"
  proof (rule ccontr)
    assume "findInner_scan k vs i c p \<noteq> None"
    then obtain c' p' where "findInner_scan k vs i c p = Some (c', p')" by auto
    from scan_result [OF this] a show False by (auto split: if_splits)
  qed
qed

lemma chainUnique_sel:
  "chainUnique chain \<Longrightarrow> length (committedOf k chain) \<le> 1 \<and> length (pendingOf k chain) \<le> 1"
  by (simp add: chainUnique_def)

lemma findInner_unique:
  assumes "activeState ht" and "0 < ht_size ht"
    and "DocKey_hash x k mod ht_size ht < length (ht_values ht)"
    and "chainUnique (ht_values ht ! (DocKey_hash x k mod ht_size ht))"
  shows "\<exists>c p. findInner x ht k =
            Inr ((\<lparr> htLock = True, bucketNum = DocKey_hash x k mod ht_size ht \<rparr>, c, p), ht)
          \<and> foundIn (DocKey_hash x k mod ht_size ht) (ht_values ht ! (DocKey_hash x k mod ht_size ht))
              (committedOf k (ht_values ht ! (DocKey_hash x k mod ht_size ht))) c
          \<and> foundIn (DocKey_hash x k mod ht_size ht) (ht_values ht ! (DocKey_hash x k mod ht_size ht))
              (pendingOf k (ht_values ht ! (DocKey_hash x k mod ht_size ht))) p"
proof -
  let ?b = "DocKey_hash x k mod ht_size ht"
  let ?chain = "ht_values ht ! ?b"
  from chainUnique_sel [OF assms(4), of k]
  have "\<exists>r. findInner_scan k ?chain 0 None None = Some r"
    by (intro scan_total) simp_all
  then obtain c p where sc: "findInner_scan k ?chain 0 None None = Some (c, p)" by auto
  from scan_result [OF sc]
  have fc: "foundIn ?b ?chain (committedOf k ?chain) (map_option (Pair ?b) c)"
    and fp: "foundIn ?b ?chain (pendingOf k ?chain) (map_option (Pair ?b) p)"
    by (auto simp: foundIn_def split: if_splits)
  have "findInner x ht k =
      Inr ((\<lparr> htLock = True, bucketNum = ?b \<rparr>, map_option (Pair ?b) c, map_option (Pair ?b) p), ht)"
    using assms(1-3) sc by (simp add: findInner_def getLockedBucket_def getBucketForHash_def)
  with fc fp show ?thesis by blast
qed

lemma deref_found:
  "foundIn b (ht_values ht ! b) sel (Some q) \<Longrightarrow> b < length (ht_values ht) \<Longrightarrow>
     deref ht q = Some (ht_values ht ! b ! snd q) \<and> q = (b, snd q)"
  by (cases q) (auto simp: foundIn_def deref_def)

lemma findForRead_committed_ok:
  assumes "foundIn (DocKey_hash x k mod ht_size ht) (ht_values ht ! (DocKey_hash x k mod ht_size ht))
              (committedOf k (ht_values ht ! (DocKey_hash x k mod ht_size ht))) c"
    and "DocKey_hash x k mod ht_size ht < length (ht_values ht)"
  shows "readCommitted x ht k tr wd
           (findForRead_committed x ht \<lparr> htLock = True, bucketNum = DocKey_hash x k mod ht_size ht \<rparr> c tr wd)"
proof (cases c)
  case None
  with assms show ?thesis
    by (simp add: readCommitted_def foundIn_def findForRead_committed_def)
next
  case (Some q)
  let ?b = "DocKey_hash x k mod ht_size ht"
  let ?chain = "ht_values ht ! ?b"
  from deref_found [OF assms(1) [unfolded Some] assms(2)]
  have d: "deref ht q = Some (?chain ! snd q)" and q: "q = (?b, snd q)" by simp_all
  from assms(1) Some have sel: "committedOf k ?chain = [?chain ! snd q]" and l: "snd q < length ?chain"
    by (simp_all add: foundIn_def)
  have "\<exists>i < length ?chain. ?chain ! i = ?chain ! snd q \<and>
                 (if deleted (?chain ! snd q)
                  then findForRead_committed x ht \<lparr> htLock = True, bucketNum = ?b \<rparr> c tr wd
                       = Inr ((if wd = WantsDeletedYes then Some (?b, i) else None, \<lparr> htLock = True, bucketNum = ?b \<rparr>), ht)
                  else if tr = TrackReferenceYes
                  then findForRead_committed x ht \<lparr> htLock = True, bucketNum = ?b \<rparr> c tr wd
                       = Inr ((Some (?b, i), \<lparr> htLock = True, bucketNum = ?b \<rparr>),
                           storeSV (snd (updateFreqCounter x (?chain ! snd q) ht)) (?b, i)
                             (SV_referenced x (fst (updateFreqCounter x (?chain ! snd q) ht))))
                  else findForRead_committed x ht \<lparr> htLock = True, bucketNum = ?b \<rparr> c tr wd
                       = Inr ((Some (?b, i), \<lparr> htLock = True, bucketNum = ?b \<rparr>), ht))"
    apply (rule exI [of _ "snd q"])
    using l d q Some
    by (auto simp: findForRead_committed_def withSV_def split: prod.splits)
  then show ?thesis
    by (simp add: readCommitted_def sel Let_def)
qed

text \<open>
  C6. On an active table whose chain for the key holds at most one committed and one
  pending value of it: when the pending value is \<open>PreparedMaybeVisible\<close>, \<open>findForRead\<close>
  returns that value and leaves the table as it is; otherwise it returns the committed
  value as \<open>readCommitted\<close> says: null when there is none, a deleted one only with
  \<open>wantsDeleted = Yes\<close>, and the frequency counter moves only on a read of a live
  committed value with \<open>trackReference = Yes\<close>.
\<close>

theorem findForRead_contract:
  assumes "activeState ht" and "0 < ht_size ht"
    and "DocKey_hash x k mod ht_size ht < length (ht_values ht)"
    and "chainUnique (ht_values ht ! (DocKey_hash x k mod ht_size ht))"
  shows "(case pendingOf k (ht_values ht ! (DocKey_hash x k mod ht_size ht)) of
            [] \<Rightarrow> readCommitted x ht k trackReference wantsDeleted
                    (findForRead x ht k trackReference wantsDeleted)
          | pv # _ \<Rightarrow>
              if isPreparedMaybeVisible pv
              then (\<exists>i < length (ht_values ht ! (DocKey_hash x k mod ht_size ht)).
                      ht_values ht ! (DocKey_hash x k mod ht_size ht) ! i = pv
                    \<and> findForRead x ht k trackReference wantsDeleted =
                        Inr ((Some (DocKey_hash x k mod ht_size ht, i),
                              \<lparr> htLock = True, bucketNum = DocKey_hash x k mod ht_size ht \<rparr>), ht))
              else readCommitted x ht k trackReference wantsDeleted
                     (findForRead x ht k trackReference wantsDeleted))"
proof -
  let ?b = "DocKey_hash x k mod ht_size ht"
  let ?chain = "ht_values ht ! ?b"
  let ?hbl = "\<lparr> htLock = True, bucketNum = ?b \<rparr>"
  from findInner_unique [OF assms] obtain c p where
    fi: "findInner x ht k = Inr ((?hbl, c, p), ht)"
    and fc: "foundIn ?b ?chain (committedOf k ?chain) c"
    and fp: "foundIn ?b ?chain (pendingOf k ?chain) p"
    by blast
  note rc = findForRead_committed_ok [OF fc assms(3), of trackReference wantsDeleted]
  show ?thesis
  proof (cases p)
    case None
    with fp have "pendingOf k ?chain = []" by (simp add: foundIn_def)
    moreover have "findForRead x ht k trackReference wantsDeleted =
        findForRead_committed x ht ?hbl c trackReference wantsDeleted"
      using fi None by (simp add: findForRead_def)
    ultimately show ?thesis using rc by simp
  next
    case (Some q)
    from deref_found [OF fp [unfolded Some] assms(3)]
    have d: "deref ht q = Some (?chain ! snd q)" and q: "q = (?b, snd q)" by simp_all
    from fp Some have sel: "pendingOf k ?chain = [?chain ! snd q]" and l: "snd q < length ?chain"
      by (simp_all add: foundIn_def)
    show ?thesis
    proof (cases "isPreparedMaybeVisible (?chain ! snd q)")
      case True
      have "findForRead x ht k trackReference wantsDeleted = Inr ((Some (?b, snd q), ?hbl), ht)"
        using fi Some d True q by (simp add: findForRead_def withSV_def)
      with l True show ?thesis by (auto simp: sel)
    next
      case False
      have "findForRead x ht k trackReference wantsDeleted =
        findForRead_committed x ht ?hbl c trackReference wantsDeleted"
        using fi Some d False by (simp add: findForRead_def withSV_def)
      with rc False show ?thesis by (simp add: sel)
    qed
  qed
qed

theorem findForRead_contract_witness:
  "activeState (sampleTable [sampleMaybeVisible, sampleCommitted])
   \<and> 0 < ht_size (sampleTable [sampleMaybeVisible, sampleCommitted])
   \<and> DocKey_hash simpleExternals sampleKey mod ht_size (sampleTable [sampleMaybeVisible, sampleCommitted]) = 1
   \<and> chainUnique (ht_values (sampleTable [sampleMaybeVisible, sampleCommitted]) ! 1)
   \<and> findForRead simpleExternals (sampleTable [sampleMaybeVisible, sampleCommitted]) sampleKey
        TrackReferenceYes WantsDeletedNo
       = Inr ((Some (1, 0), \<lparr> htLock = True, bucketNum = 1 \<rparr>),
              sampleTable [sampleMaybeVisible, sampleCommitted])
   \<and> findForRead simpleExternals (sampleTable [samplePending, sampleCommitted]) sampleKey
        TrackReferenceYes WantsDeletedNo
       = Inr ((Some (1, 1), \<lparr> htLock = True, bucketNum = 1 \<rparr>),
              sampleTable [samplePending, sampleCommitted \<lparr> freqCounter := 5 \<rparr>])"
proof -
  let ?t = "sampleTable [sampleMaybeVisible, sampleCommitted]"
  let ?u = "sampleTable [samplePending, sampleCommitted]"
  have b: "DocKey_hash simpleExternals sampleKey mod ht_size (sampleTable chain) = 1" for chain
    by (simp add: sample_facts sampleTable_fields)
  have h1: "activeState ?t" and h2: "0 < ht_size ?t"
    and h3: "DocKey_hash simpleExternals sampleKey mod ht_size ?t < length (ht_values ?t)"
    by (simp_all add: b sampleTable_fields)
  have h4: "chainUnique (ht_values ?t ! 1)"
    using sample_chainUnique(1) by (simp add: sampleTable_fields)
  have h4': "chainUnique (ht_values ?t ! (DocKey_hash simpleExternals sampleKey mod ht_size ?t))"
    using h4 by (simp only: b)
  have u1: "activeState ?u" and u2: "0 < ht_size ?u"
    and u3: "DocKey_hash simpleExternals sampleKey mod ht_size ?u < length (ht_values ?u)"
    by (simp_all add: b sampleTable_fields)
  have u4: "chainUnique (ht_values ?u ! (DocKey_hash simpleExternals sampleKey mod ht_size ?u))"
    using sample_chainUnique(2) by (simp add: b) (simp add: sampleTable_fields)
  have pt: "pendingOf sampleKey [sampleMaybeVisible, sampleCommitted] = [sampleMaybeVisible]"
    and pu: "pendingOf sampleKey [samplePending, sampleCommitted] = [samplePending]"
    and cu: "committedOf sampleKey [samplePending, sampleCommitted] = [sampleCommitted]"
    by (simp_all add: hasKey_def sample_facts)
  have "\<exists>i < length [sampleMaybeVisible, sampleCommitted]. [sampleMaybeVisible, sampleCommitted] ! i = sampleMaybeVisible
          \<and> findForRead simpleExternals ?t sampleKey TrackReferenceYes WantsDeletedNo
              = Inr ((Some (1, i), \<lparr> htLock = True, bucketNum = 1 \<rparr>), ?t)"
    using findForRead_contract [OF h1 h2 h3 h4', of TrackReferenceYes WantsDeletedNo]
    by (simp add: b sampleTable_fields hasKey_def sample_facts)
  then have r1: "findForRead simpleExternals ?t sampleKey TrackReferenceYes WantsDeletedNo
       = Inr ((Some (1, 0), \<lparr> htLock = True, bucketNum = 1 \<rparr>), ?t)"
    using sample_facts(11) by (auto simp: less_Suc_eq)
  have "readCommitted simpleExternals ?u sampleKey TrackReferenceYes WantsDeletedNo
          (findForRead simpleExternals ?u sampleKey TrackReferenceYes WantsDeletedNo)"
    using findForRead_contract [OF u1 u2 u3 u4, of TrackReferenceYes WantsDeletedNo]
    by (simp add: b sampleTable_fields hasKey_def sample_facts)
  then have "\<exists>i < length [samplePending, sampleCommitted]. [samplePending, sampleCommitted] ! i = sampleCommitted
          \<and> findForRead simpleExternals ?u sampleKey TrackReferenceYes WantsDeletedNo
              = Inr ((Some (1, i), \<lparr> htLock = True, bucketNum = 1 \<rparr>),
                     storeSV (snd (updateFreqCounter simpleExternals sampleCommitted ?u)) (1, i)
                       (SV_referenced simpleExternals
                          (fst (updateFreqCounter simpleExternals sampleCommitted ?u))))"
    by (simp add: readCommitted_def Let_def b sampleTable_fields hasKey_def sample_facts)
  then have "findForRead simpleExternals ?u sampleKey TrackReferenceYes WantsDeletedNo
              = Inr ((Some (1, 1), \<lparr> htLock = True, bucketNum = 1 \<rparr>),
                     storeSV (snd (updateFreqCounter simpleExternals sampleCommitted ?u)) (1, 1)
                       (SV_referenced simpleExternals
                          (fst (updateFreqCounter simpleExternals sampleCommitted ?u))))"
    using sample_facts(10) by (auto simp: less_Suc_eq)
  moreover have "storeSV (snd (updateFreqCounter simpleExternals sampleCommitted ?u)) (1, 1)
                       (SV_referenced simpleExternals
                          (fst (updateFreqCounter simpleExternals sampleCommitted ?u)))
      = sampleTable [samplePending, sampleCommitted \<lparr> freqCounter := 5 \<rparr>]"
    by (simp add: updateFreqCounter_def storeSV_def sample_defs)
  ultimately have r2: "findForRead simpleExternals ?u sampleKey TrackReferenceYes WantsDeletedNo
       = Inr ((Some (1, 1), \<lparr> htLock = True, bucketNum = 1 \<rparr>),
              sampleTable [samplePending, sampleCommitted \<lparr> freqCounter := 5 \<rparr>])"
    by simp
  show ?thesis using h1 h2 b h4 r1 r2 by blast
qed

subsection \<open>Update in place\<close>

lemma updateStats_fields [simp]:
  "ht_values (updateStats x pre v ht) = ht_values ht"
  "ht_size (updateStats x pre v ht) = ht_size ht"
  "activeState (updateStats x pre v ht) = activeState ht"
  "valueStats (updateStats x pre v ht) = epilogue x pre v (valueStats ht)"
  by (simp_all add: updateStats_def)

lemma storeSV_fields [simp]:
  "ht_size (storeSV ht p v) = ht_size ht"
  "activeState (storeSV ht p v) = activeState ht"
  "valueStats (storeSV ht p v) = valueStats ht"
  "ht_values (storeSV ht p v) = (ht_values ht)[fst p := (ht_values ht ! fst p)[snd p := v]]"
  by (simp_all add: storeSV_def)

lemma updateFreqCounter_fst:
  "fst (updateFreqCounter x v ht) = v\<lparr> freqCounter := generateValue x (freqCounter v) \<rparr>"
  by (simp add: updateFreqCounter_def Let_def)

lemma updateFreqCounter_snd [simp]:
  "ht_values (snd (updateFreqCounter x v ht)) = ht_values ht"
  "ht_size (snd (updateFreqCounter x v ht)) = ht_size ht"
  "activeState (snd (updateFreqCounter x v ht)) = activeState ht"
  "valueStats (snd (updateFreqCounter x v ht)) = valueStats ht"
  by (simp_all add: updateFreqCounter_def Let_def)

lemma deref_storeSV: "deref ht p = Some v \<Longrightarrow> deref (storeSV ht p w) p = Some w"
  by (auto simp: deref_def storeSV_def split: if_splits)

lemma addNew_ok:
  assumes "htLock hbl" and "activeState ht" and "bucketNum hbl < length (ht_values ht)"
  shows "unlocked_addNewStoredValue x ht hbl itm =
     Inr ((bucketNum hbl, 0),
          (updateStats x (prologue x None) (Some (valFact x itm)) ht)
            \<lparr> ht_values := (ht_values ht)
                [bucketNum hbl := valFact x itm # ht_values ht ! bucketNum hbl] \<rparr>)"
  using assms by (simp add: unlocked_addNewStoredValue_def Let_def)

text \<open>
  C7. \<open>unlocked_updateStoredValue\<close> with the bucket lock held on an active table, for a
  reference to a value \<open>v\<close> of the table: (1) when \<open>v\<close> is pending the status is
  \<open>IsPendingSyncWrite\<close> and the table, statistics included, is as before; (2) else, for a
  pending item, the value the factory makes of the item becomes the head of the lock's
  chain, the rest of the chain and \<open>v\<close> stay, and the statistics take the epilogue from
  empty; (3) else the place of \<open>v\<close> holds \<open>setValue\<close> of \<open>v\<close> with the frequency counter
  updated, the statistics take the epilogue from the snapshot of \<open>v\<close>, and the status is
  \<open>WasDirty\<close> exactly when \<open>v\<close> was dirty, else \<open>WasClean\<close>.
\<close>

theorem unlocked_updateStoredValue_contract:
  assumes "htLock hbl" and "activeState ht" and "deref ht p = Some v"
  shows "(pendingState (committed v) \<longrightarrow>
            unlocked_updateStoredValue x ht hbl p itm = Inr ((IsPendingSyncWrite, None), ht))
       \<and> (\<not> pendingState (committed v) \<and> Item_isPending itm
            \<and> bucketNum hbl < length (ht_values ht) \<longrightarrow>
          (\<exists>ht'. unlocked_updateStoredValue x ht hbl p itm
                    = Inr ((WasClean, Some (bucketNum hbl, 0)), ht')
                \<and> ht_values ht' = (ht_values ht)
                    [bucketNum hbl := valFact x itm # ht_values ht ! bucketNum hbl]
                \<and> deref ht' (if fst p = bucketNum hbl then (fst p, Suc (snd p)) else p) = Some v
                \<and> valueStats ht' =
                    epilogue x (prologue x None) (Some (valFact x itm)) (valueStats ht)))
       \<and> (\<not> pendingState (committed v) \<and> \<not> Item_isPending itm \<longrightarrow>
          (\<exists>ht' v'. unlocked_updateStoredValue x ht hbl p itm
                    = Inr ((if dirty v then WasDirty else WasClean, Some p), ht')
                \<and> v' = (SV_setValue x v itm)
                         \<lparr> freqCounter := generateValue x (freqCounter (SV_setValue x v itm)) \<rparr>
                \<and> ht_values ht' = (ht_values ht)[fst p := (ht_values ht ! fst p)[snd p := v']]
                \<and> deref ht' p = Some v'
                \<and> valueStats ht' = epilogue x (prologue x (Some v)) (Some v') (valueStats ht)))"
proof (intro conjI impI)
  assume "pendingState (committed v)"
  then show "unlocked_updateStoredValue x ht hbl p itm = Inr ((IsPendingSyncWrite, None), ht)"
    using assms by (cases "committed v") (simp_all add: unlocked_updateStoredValue_def withSV_def)
next
  assume a: "\<not> pendingState (committed v) \<and> Item_isPending itm
            \<and> bucketNum hbl < length (ht_values ht)"
  let ?ht' = "(updateStats x (prologue x None) (Some (valFact x itm)) ht)
            \<lparr> ht_values := (ht_values ht)
                [bucketNum hbl := valFact x itm # ht_values ht ! bucketNum hbl] \<rparr>"
  have an: "unlocked_addNewStoredValue x ht hbl itm = Inr ((bucketNum hbl, 0), ?ht')"
    using a assms by (intro addNew_ok) simp_all
  have r: "unlocked_updateStoredValue x ht hbl p itm = Inr ((WasClean, Some (bucketNum hbl, 0)), ?ht')"
    using a assms an
    by (cases "committed v") (simp_all add: unlocked_updateStoredValue_def withSV_def)
  have d: "deref ?ht' (if fst p = bucketNum hbl then (fst p, Suc (snd p)) else p) = Some v"
    using assms(3) a by (auto simp: deref_def split: if_splits)
  show "\<exists>ht'. unlocked_updateStoredValue x ht hbl p itm
                    = Inr ((WasClean, Some (bucketNum hbl, 0)), ht')
                \<and> ht_values ht' = (ht_values ht)
                    [bucketNum hbl := valFact x itm # ht_values ht ! bucketNum hbl]
                \<and> deref ht' (if fst p = bucketNum hbl then (fst p, Suc (snd p)) else p) = Some v
                \<and> valueStats ht' =
                    epilogue x (prologue x None) (Some (valFact x itm)) (valueStats ht)"
    by (rule exI [of _ ?ht']) (simp add: r d)
next
  assume a: "\<not> pendingState (committed v) \<and> \<not> Item_isPending itm"
  let ?v' = "(SV_setValue x v itm)
                         \<lparr> freqCounter := generateValue x (freqCounter (SV_setValue x v itm)) \<rparr>"
  let ?ht' = "updateStats x (prologue x (Some v)) (Some ?v')
                (storeSV (snd (updateFreqCounter x (SV_setValue x v itm) ht)) p ?v')"
  have r: "unlocked_updateStoredValue x ht hbl p itm
             = Inr ((if dirty v then WasDirty else WasClean, Some p), ?ht')"
    using a assms
    by (cases "committed v")
       (simp_all add: unlocked_updateStoredValue_def withSV_def Let_def split_beta
          updateFreqCounter_fst)
  have d: "deref ?ht' p = Some ?v'"
    using assms(3) by (auto simp: deref_def split: if_splits)
  show "\<exists>ht' v'. unlocked_updateStoredValue x ht hbl p itm
                    = Inr ((if dirty v then WasDirty else WasClean, Some p), ht')
                \<and> v' = (SV_setValue x v itm)
                         \<lparr> freqCounter := generateValue x (freqCounter (SV_setValue x v itm)) \<rparr>
                \<and> ht_values ht' = (ht_values ht)[fst p := (ht_values ht ! fst p)[snd p := v']]
                \<and> deref ht' p = Some v'
                \<and> valueStats ht' = epilogue x (prologue x (Some v)) (Some v') (valueStats ht)"
    by (rule exI [of _ ?ht'], rule exI [of _ ?v']) (simp add: r d)
qed

lemma sample_deref:
  "deref (sampleTable (v # vs)) (1, 0) = Some v"
  by (simp add: deref_def sampleTable_fields)

theorem unlocked_updateStoredValue_contract_witness:
  "htLock sampleLock
   \<and> activeState (sampleTable [samplePending, sampleCommitted])
   \<and> deref (sampleTable [samplePending, sampleCommitted]) (1, 0) = Some samplePending
   \<and> pendingState (committed samplePending)
   \<and> unlocked_updateStoredValue simpleExternals (sampleTable [samplePending, sampleCommitted])
        sampleLock (1, 0) (sampleItem CommittedViaMutation ''3'' 12)
       = Inr ((IsPendingSyncWrite, None), sampleTable [samplePending, sampleCommitted])
   \<and> deref (sampleTable [sampleCommitted]) (1, 0) = Some sampleCommitted
   \<and> \<not> pendingState (committed sampleCommitted)
   \<and> Item_isPending (sampleItem Pending ''2'' 11)
   \<and> (\<exists>ht'. unlocked_updateStoredValue simpleExternals (sampleTable [sampleCommitted])
              sampleLock (1, 0) (sampleItem Pending ''2'' 11)
             = Inr ((WasClean, Some (1, 0)), ht')
           \<and> ht_values ht' = [[], [samplePending, sampleCommitted], []]
           \<and> deref ht' (1, 1) = Some sampleCommitted)
   \<and> \<not> Item_isPending (sampleItem CommittedViaMutation ''3'' 12)
   \<and> dirty sampleCommitted
   \<and> (\<exists>ht'. unlocked_updateStoredValue simpleExternals (sampleTable [sampleCommitted])
              sampleLock (1, 0) (sampleItem CommittedViaMutation ''3'' 12)
             = Inr ((WasDirty, Some (1, 0)), ht')
           \<and> ht_values ht' =
               [[], [sampleCommitted \<lparr> valueBytes := Some ''3'', cas := 12, freqCounter := 5 \<rparr>], []])"
proof -
  let ?t = "sampleTable [samplePending, sampleCommitted]"
  let ?u = "sampleTable [sampleCommitted]"
  have l: "htLock sampleLock" and bn: "bucketNum sampleLock = 1" by (simp_all add: sampleLock_def)
  have at: "activeState ?t" and au: "activeState ?u" by (simp_all add: sampleTable_fields)
  have dt: "deref ?t (1, 0) = Some samplePending" and du: "deref ?u (1, 0) = Some sampleCommitted"
    by (rule sample_deref)+
  have ps: "pendingState (committed samplePending)" "\<not> pendingState (committed sampleCommitted)"
    using sample_facts(4,5) by (simp_all add: isPending_def)
  have ip: "Item_isPending (sampleItem Pending ''2'' 11)"
    "\<not> Item_isPending (sampleItem CommittedViaMutation ''3'' 12)"
    by (simp_all add: Item_isPending_def sampleItem_def)
  have di: "dirty sampleCommitted" by (simp add: sample_defs)
  have vf: "valFact simpleExternals (sampleItem Pending ''2'' 11) = samplePending"
    by (simp add: samplePending_def)
  have sv: "(SV_setValue simpleExternals sampleCommitted (sampleItem CommittedViaMutation ''3'' 12))
      \<lparr> freqCounter := generateValue simpleExternals
          (freqCounter (SV_setValue simpleExternals sampleCommitted (sampleItem CommittedViaMutation ''3'' 12))) \<rparr>
      = sampleCommitted \<lparr> valueBytes := Some ''3'', cas := 12, freqCounter := 5 \<rparr>"
    by (simp add: sample_defs)
  note c1 = unlocked_updateStoredValue_contract [OF l at dt, of simpleExternals "sampleItem CommittedViaMutation ''3'' 12"]
  note c2 = unlocked_updateStoredValue_contract [OF l au du, of simpleExternals "sampleItem Pending ''2'' 11"]
  note c3 = unlocked_updateStoredValue_contract [OF l au du, of simpleExternals "sampleItem CommittedViaMutation ''3'' 12"]
  have r1: "unlocked_updateStoredValue simpleExternals ?t sampleLock (1, 0)
              (sampleItem CommittedViaMutation ''3'' 12) = Inr ((IsPendingSyncWrite, None), ?t)"
    using c1 ps by blast
  have r2: "\<exists>ht'. unlocked_updateStoredValue simpleExternals ?u sampleLock (1, 0)
              (sampleItem Pending ''2'' 11) = Inr ((WasClean, Some (1, 0)), ht')
           \<and> ht_values ht' = [[], [samplePending, sampleCommitted], []]
           \<and> deref ht' (1, 1) = Some sampleCommitted"
    using c2 ps ip by (simp add: bn vf sampleTable_fields) blast
  have r3: "\<exists>ht'. unlocked_updateStoredValue simpleExternals ?u sampleLock (1, 0)
              (sampleItem CommittedViaMutation ''3'' 12) = Inr ((WasDirty, Some (1, 0)), ht')
           \<and> ht_values ht' =
               [[], [sampleCommitted \<lparr> valueBytes := Some ''3'', cas := 12, freqCounter := 5 \<rparr>], []]"
    using c3 ps ip di by (simp add: sv sampleTable_fields) blast
  show ?thesis using l at dt du ps ip di r1 r2 r3 by blast
qed

subsection \<open>Warmup\<close>

lemma found_nonempty:
  "foundIn b chain sel r \<Longrightarrow> sel \<noteq> [] \<Longrightarrow> \<exists>q. r = Some q"
  by (cases r) (simp_all add: foundIn_def)

lemma warmup_metaOnly_found:
  assumes "findInner x ht (item_key itm) = Inr ((hbl, c, p), ht)"
    and "(if Item_isCommitted itm then c else p) = Some q"
  shows "insertFromWarmup x ht itm eject True evictionPolicy = Inr (InvalidCas, ht)"
  using assms by (simp add: insertFromWarmup_def)

text \<open>
  C10. \<open>insertFromWarmup\<close> with \<open>keyMetaDataOnly\<close> set, when the chain of the item's key
  holds a value of that key in the item's category (committed or pending): the call
  returns \<open>InvalidCas\<close> whatever the CAS values are, and the table (value, chain and
  statistics) is as before.
\<close>

theorem insertFromWarmup_metaOnly_existing:
  assumes "activeState ht" and "0 < ht_size ht"
    and "DocKey_hash x (item_key itm) mod ht_size ht < length (ht_values ht)"
    and "chainUnique (ht_values ht ! (DocKey_hash x (item_key itm) mod ht_size ht))"
    and "(if Item_isCommitted itm
          then committedOf (item_key itm) (ht_values ht ! (DocKey_hash x (item_key itm) mod ht_size ht))
          else pendingOf (item_key itm) (ht_values ht ! (DocKey_hash x (item_key itm) mod ht_size ht)))
         \<noteq> []"
  shows "insertFromWarmup x ht itm eject True evictionPolicy = Inr (InvalidCas, ht)"
proof -
  let ?b = "DocKey_hash x (item_key itm) mod ht_size ht"
  let ?chain = "ht_values ht ! ?b"
  from findInner_unique [OF assms(1-4)] obtain c p where
    fi: "findInner x ht (item_key itm) = Inr ((\<lparr> htLock = True, bucketNum = ?b \<rparr>, c, p), ht)"
    and fc: "foundIn ?b ?chain (committedOf (item_key itm) ?chain) c"
    and fp: "foundIn ?b ?chain (pendingOf (item_key itm) ?chain) p"
    by blast
  have "\<exists>q. (if Item_isCommitted itm then c else p) = Some q"
    using assms(5) found_nonempty [OF fc] found_nonempty [OF fp] by (auto split: if_splits)
  then obtain q where "(if Item_isCommitted itm then c else p) = Some q" by blast
  with fi show ?thesis by (rule warmup_metaOnly_found)
qed

theorem insertFromWarmup_metaOnly_existing_witness:
  "activeState (sampleTable [sampleCommitted])
   \<and> 0 < ht_size (sampleTable [sampleCommitted])
   \<and> DocKey_hash simpleExternals (item_key (sampleItem CommittedViaMutation ''1'' 10))
        mod ht_size (sampleTable [sampleCommitted]) = 1
   \<and> chainUnique (ht_values (sampleTable [sampleCommitted]) ! 1)
   \<and> Item_isCommitted (sampleItem CommittedViaMutation ''1'' 10)
   \<and> committedOf sampleKey (ht_values (sampleTable [sampleCommitted]) ! 1) = [sampleCommitted]
   \<and> insertFromWarmup simpleExternals (sampleTable [sampleCommitted])
        (sampleItem CommittedViaMutation ''1'' 10) True True Value
       = Inr (InvalidCas, sampleTable [sampleCommitted])"
proof -
  let ?t = "sampleTable [sampleCommitted]"
  let ?i = "sampleItem CommittedViaMutation ''1'' 10"
  have k: "item_key ?i = sampleKey" by (simp add: sampleItem_def)
  have b: "DocKey_hash simpleExternals (item_key ?i) mod ht_size ?t = 1"
    by (simp add: k sample_facts sampleTable_fields)
  have h1: "activeState ?t" and h2: "0 < ht_size ?t"
    and h3: "DocKey_hash simpleExternals (item_key ?i) mod ht_size ?t < length (ht_values ?t)"
    by (simp_all add: b) (simp_all add: sampleTable_fields)
  have cu: "chainUnique (ht_values ?t ! 1)"
    using sample_chainUnique(3) by (simp add: sampleTable_fields)
  have h4: "chainUnique (ht_values ?t ! (DocKey_hash simpleExternals (item_key ?i) mod ht_size ?t))"
    using cu by (simp only: b)
  have ic: "Item_isCommitted ?i" by (simp add: Item_isCommitted_def sampleItem_def)
  have co: "committedOf sampleKey (ht_values ?t ! 1) = [sampleCommitted]"
    by (simp add: sampleTable_fields hasKey_def sample_facts)
  have h5: "(if Item_isCommitted ?i
          then committedOf (item_key ?i) (ht_values ?t ! (DocKey_hash simpleExternals (item_key ?i) mod ht_size ?t))
          else pendingOf (item_key ?i) (ht_values ?t ! (DocKey_hash simpleExternals (item_key ?i) mod ht_size ?t)))
         \<noteq> []"
    using ic co by (simp add: b) (simp add: k)
  from insertFromWarmup_metaOnly_existing [OF h1 h2 h3 h4 h5, of True Value]
  show ?thesis using h1 h2 b cu ic co by blast
qed

subsection \<open>A table that is not active\<close>

lemma findInner_inactive:
  "\<not> activeState ht \<Longrightarrow> findInner x ht k = Inl (logic_error, ht)"
  by (simp add: findInner_def)

text \<open>
  C9 (as amended). On a table that is not active, \<open>findInner\<close> and the find operations,
  \<open>set\<close>, \<open>insertFromWarmup\<close>, both \<open>resize\<close>, \<open>unlocked_updateStoredValue\<close>,
  \<open>unlocked_addNewStoredValue\<close>, \<open>unlocked_release\<close>, \<open>unlocked_del\<close> and
  \<open>unlocked_restoreMeta\<close> raise a logic error (\<open>std::logic_error\<close> or its subclass
  \<open>std::invalid_argument\<close>) and the table is as before; \<open>unlocked_restoreValue\<close> returns
  false and the table is as before.
\<close>

theorem inactive_fails_fast:
  assumes "\<not> activeState ht"
  shows "findInner x ht k = Inl (logic_error, ht)
       \<and> findForRead x ht k trackReference wantsDeleted = Inl (logic_error, ht)
       \<and> findForWrite x ht k wantsDeleted = Inl (logic_error, ht)
       \<and> findOnlyCommitted x ht k = Inl (logic_error, ht)
       \<and> findOnlyPrepared x ht k = Inl (logic_error, ht)
       \<and> findForCommit x ht k = Inl (logic_error, ht)
       \<and> HashTable_set x ht itm = Inl (logic_error, ht)
       \<and> insertFromWarmup x ht itm eject keyMetaDataOnly evictionPolicy = Inl (logic_error, ht)
       \<and> resize x ht newSize = Inl (logic_error, ht)
       \<and> resize_noarg x ht = Inl (logic_error, ht)
       \<and> (\<exists>e. unlocked_updateStoredValue x ht hbl p itm = Inl (e, ht) \<and> is_logic_error e)
       \<and> (\<exists>e. unlocked_addNewStoredValue x ht hbl itm = Inl (e, ht) \<and> is_logic_error e)
       \<and> (\<exists>e. unlocked_release_key x ht hbl k = Inl (e, ht) \<and> is_logic_error e)
       \<and> (\<exists>e. unlocked_release_ptr x ht hbl vptr = Inl (e, ht) \<and> is_logic_error e)
       \<and> (\<exists>e. unlocked_del_key x ht hbl k = Inl (e, ht) \<and> is_logic_error e)
       \<and> (\<exists>e. unlocked_del_ptr x ht hbl vptr = Inl (e, ht) \<and> is_logic_error e)
       \<and> (\<exists>e. unlocked_restoreMeta x ht htLockHeld itm p = Inl (e, ht) \<and> is_logic_error e)
       \<and> unlocked_restoreValue x ht htLockHeld itm p = Inr (False, ht)"
proof -
  note fi = findInner_inactive [OF assms]
  have rel: "\<exists>e. unlocked_release_inner x ht hbl pred = Inl (e, ht) \<and> is_logic_error e" for pred
    using assms by (simp add: unlocked_release_inner_def)
  have "findForRead x ht k trackReference wantsDeleted = Inl (logic_error, ht)"
    by (simp add: findForRead_def fi)
  moreover have "findForWrite x ht k wantsDeleted = Inl (logic_error, ht)"
    by (simp add: findForWrite_def fi)
  moreover have "findOnlyCommitted x ht k = Inl (logic_error, ht)"
    by (simp add: findOnlyCommitted_def fi)
  moreover have "findOnlyPrepared x ht k = Inl (logic_error, ht)"
    by (simp add: findOnlyPrepared_def fi)
  moreover have "findForCommit x ht k = Inl (logic_error, ht)"
    by (simp add: findForCommit_def fi)
  moreover have "HashTable_set x ht itm = Inl (logic_error, ht)"
    by (simp add: HashTable_set_def findForWrite_def fi)
  moreover have "insertFromWarmup x ht itm eject keyMetaDataOnly evictionPolicy = Inl (logic_error, ht)"
    by (simp add: insertFromWarmup_def fi)
  moreover have "resize x ht newSize = Inl (logic_error, ht)" for newSize
    using assms by (simp add: resize_def)
  moreover have "resize_noarg x ht = Inl (logic_error, ht)"
    using assms by (simp add: resize_noarg_def resize_def)
  moreover have "\<exists>e. unlocked_updateStoredValue x ht hbl p itm = Inl (e, ht) \<and> is_logic_error e"
    using assms by (simp add: unlocked_updateStoredValue_def)
  moreover have "\<exists>e. unlocked_addNewStoredValue x ht hbl itm = Inl (e, ht) \<and> is_logic_error e"
    using assms by (simp add: unlocked_addNewStoredValue_def)
  moreover have "\<exists>e. unlocked_release_key x ht hbl k = Inl (e, ht) \<and> is_logic_error e"
    unfolding unlocked_release_key_def by (rule rel)
  moreover have "\<exists>e. unlocked_release_ptr x ht hbl vptr = Inl (e, ht) \<and> is_logic_error e"
    unfolding unlocked_release_ptr_def by (rule rel)
  moreover have "\<exists>e. unlocked_del_key x ht hbl k = Inl (e, ht) \<and> is_logic_error e"
    using rel [of "\<lambda>i v. hasKey v k"]
    by (auto simp: unlocked_del_key_def unlocked_release_key_def dropReleased_def)
  moreover have "\<exists>e. unlocked_del_ptr x ht hbl vptr = Inl (e, ht) \<and> is_logic_error e"
    using rel [of "\<lambda>i v. Some (bucketNum hbl, i) = vptr"]
    by (auto simp: unlocked_del_ptr_def unlocked_release_ptr_def dropReleased_def)
  moreover have "\<exists>e. unlocked_restoreMeta x ht htLockHeld itm p = Inl (e, ht) \<and> is_logic_error e"
    using assms by (simp add: unlocked_restoreMeta_def)
  moreover have "unlocked_restoreValue x ht htLockHeld itm p = Inr (False, ht)"
    using assms by (simp add: unlocked_restoreValue_def)
  ultimately show ?thesis using fi by blast
qed

lemma sampleInactive_fields:
  "\<not> activeState sampleInactive" "ht_values sampleInactive = [[], [sampleCommitted], []]"
  "ht_size sampleInactive = 3"
  by (simp_all add: sampleInactive_def sampleTable_fields)

theorem inactive_fails_fast_witness:
  "\<not> activeState sampleInactive
   \<and> findForRead simpleExternals sampleInactive sampleKey TrackReferenceYes WantsDeletedNo
       = Inl (logic_error, sampleInactive)
   \<and> HashTable_set simpleExternals sampleInactive (sampleItem CommittedViaMutation ''3'' 12)
       = Inl (logic_error, sampleInactive)
   \<and> resize simpleExternals sampleInactive 7 = Inl (logic_error, sampleInactive)
   \<and> unlocked_addNewStoredValue simpleExternals sampleInactive sampleLock
        (sampleItem Pending ''2'' 11) = Inl (invalid_argument, sampleInactive)
   \<and> unlocked_restoreValue simpleExternals sampleInactive True
        (sampleItem CommittedViaMutation ''1'' 10) (1, 0) = Inr (False, sampleInactive)"
proof -
  note t = inactive_fails_fast [OF sampleInactive_fields(1), of simpleExternals]
  have "unlocked_addNewStoredValue simpleExternals sampleInactive sampleLock
        (sampleItem Pending ''2'' 11) = Inl (invalid_argument, sampleInactive)"
    by (simp add: unlocked_addNewStoredValue_def sampleLock_def sampleInactive_fields)
  with t [of sampleKey TrackReferenceYes WantsDeletedNo "sampleItem CommittedViaMutation ''3'' 12"
            True False Value 7 sampleLock "(1, 0)" None True]
       t [of sampleKey TrackReferenceYes WantsDeletedNo "sampleItem CommittedViaMutation ''1'' 10"
            True False Value 7 sampleLock "(1, 0)" None True]
  show ?thesis using sampleInactive_fields(1) by blast
qed

text \<open>
  \<open>unlocked_softDelete\<close> has no check of the active state: on the table that is not
  active it marks the committed value deleted, counts it and reports success.
\<close>

theorem inactive_softDelete_counterexample:
  "\<not> activeState sampleInactive
   \<and> (case unlocked_softDelete simpleExternals sampleInactive sampleLock (1, 0) True Explicit of
         Inl e \<Rightarrow> False
       | Inr ((status, sv), ht') \<Rightarrow>
           status = DeletionSuccess \<and> sv = Some (1, 0)
           \<and> ht_values sampleInactive = [[], [sampleCommitted], []]
           \<and> ht_values ht' = [[], [sampleCommitted\<lparr> deleted := True \<rparr>], []]
           \<and> numDeletedItems (valueStats sampleInactive) = 0
           \<and> numDeletedItems (valueStats ht') = 1)"
proof -
  have d: "deref sampleInactive (1, 0) = Some sampleCommitted"
    by (simp add: deref_def sampleInactive_fields)
  have c: "committed sampleCommitted = CommittedViaMutation" by (simp add: sample_defs)
  have m: "SV_markDeleted simpleExternals sampleCommitted Explicit = sampleCommitted\<lparr> deleted := True \<rparr>"
    by (simp add: sample_defs)
  have s0: "numDeletedItems (valueStats sampleInactive) = 0"
    by (simp add: sampleInactive_def sampleTable_def newHashTable_def newStatistics_def)
  have r: "unlocked_softDelete simpleExternals sampleInactive sampleLock (1, 0) True Explicit
      = Inr ((DeletionSuccess, Some (1, 0)),
             updateStats simpleExternals (prologue simpleExternals (Some sampleCommitted))
               (Some (sampleCommitted\<lparr> deleted := True \<rparr>))
               (storeSV sampleInactive (1, 0) (sampleCommitted\<lparr> deleted := True \<rparr>)))"
    unfolding unlocked_softDelete_def withSV_def d by (simp add: c m Let_def)
  show ?thesis
    unfolding r using sampleInactive_fields(1)
    by (simp add: sampleInactive_fields ep_deleted s0 spec_deleted_def spec_isSystem_def
        spec_isPrepared_def)
       (simp add: sample_defs)
qed

lemma storeSV_same: "deref ht p = Some v \<Longrightarrow> storeSV ht p v = ht"
  by (auto simp: deref_def storeSV_def split: if_splits)

lemma storeSV_twice: "storeSV (storeSV ht p v) p w = storeSV ht p w"
  by (cases "fst p < length (ht_values ht)") (simp_all add: storeSV_def list_update_beyond)

lemma deref_storeSV_None [simp]: "deref (storeSV ht p w) q = None \<longleftrightarrow> deref ht q = None"
  by (cases "fst p = fst q") (auto simp: deref_def storeSV_def split: if_splits)

lemma deref_storeSV_iff: "deref (storeSV ht p w) p = Some w \<longleftrightarrow> deref ht p \<noteq> None"
  by (auto simp: deref_def storeSV_def split: if_splits)

lemma storeSV_updateStats: "storeSV (updateStats x pre v ht) p w = updateStats x pre v (storeSV ht p w)"
  by (simp add: storeSV_def updateStats_def)

lemma deref_updateStats [simp]: "deref (updateStats x pre v ht) p = deref ht p"
  by (simp add: deref_def)

lemma warmupEject_status:
  "warmupEject x h hbl p eject meta policy = Inr (status, h') \<Longrightarrow> status = NotFound"
  by (auto simp: warmupEject_def split: if_splits sum.splits)

lemma finish_eq:
  "deref h p = Some v \<Longrightarrow>
     insertFromWarmup_finish x h hbl p eject meta policy =
       warmupEject x (storeSV h p (v\<lparr> dirty := False \<rparr>)) hbl p eject meta policy"
  by (simp add: insertFromWarmup_finish_def withSV_def warmupEject_def Let_def)

lemma restore_eq:
  assumes "deref h p = Some v" and "activeState h" and "htLock hbl"
  shows "\<exists>h'. insertFromWarmup_restore x h hbl p itm eject meta policy =
            warmupEject x h' hbl p eject meta policy
          \<and> ht_values h' = ht_values (storeSV h p ((warmupRestored x itm v)\<lparr> dirty := False \<rparr>))
          \<and> activeState h' \<and> ht_size h' = ht_size h"
proof (cases "resident v")
  case True
  then have "insertFromWarmup_restore x h hbl p itm eject meta policy =
      warmupEject x (storeSV h p (v\<lparr> dirty := False \<rparr>)) hbl p eject meta policy"
    using assms by (simp add: insertFromWarmup_restore_def withSV_def finish_eq)
  with True assms(2) show ?thesis
    by (intro exI [of _ "storeSV h p (v\<lparr> dirty := False \<rparr>)"]) (simp add: warmupRestored_def)
next
  case False
  let ?w = "warmupRestored x itm v"
  let ?h1 = "updateStats x (prologue x (Some v)) (Some ?w) (storeSV h p ?w)"
  have rv: "unlocked_restoreValue x h (htLock hbl) itm p = Inr (True, ?h1)"
    using False assms by (simp add: unlocked_restoreValue_def withSV_def Let_def warmupRestored_def)
  have d1: "deref ?h1 p = Some ?w" using assms(1) by (simp add: deref_storeSV_iff)
  have "insertFromWarmup_restore x h hbl p itm eject meta policy =
      warmupEject x (storeSV ?h1 p (?w\<lparr> dirty := False \<rparr>)) hbl p eject meta policy"
    using False assms(1) rv by (simp add: insertFromWarmup_restore_def withSV_def finish_eq [OF d1])
  with assms(2) show ?thesis
    by (intro exI [of _ "storeSV ?h1 p (?w\<lparr> dirty := False \<rparr>)"])
       (simp add: storeSV_updateStats storeSV_twice)
qed

text \<open>
  C8 (as amended). \<open>insertFromWarmup\<close> on an active table whose chain for the item's key
  holds at most one committed and one pending value of it; a matching value is one of
  the item's key in the item's category. Without a matching value a new entry becomes
  the head of the chain (marked non-resident when \<open>keyMetaDataOnly\<close> is set). With a
  matching value the call returns \<open>InvalidCas\<close> and changes nothing when
  \<open>keyMetaDataOnly\<close> is set, and when the value's CAS is neither zero nor the item's.
  Otherwise a value whose CAS is zero and not the item's takes CAS, flags, expiry and
  revision from the item, and a value that is then not resident is restored from the
  item. On these paths the entry is marked clean, \<open>unlocked_ejectItem\<close> runs when
  \<open>eject && !keyMetaDataOnly\<close>, and every status the call returns with is \<open>NotFound\<close>.
\<close>

theorem insertFromWarmup_contract:
  assumes "activeState ht" and "0 < ht_size ht"
    and "warmupBucket x ht itm < length (ht_values ht)"
    and "chainUnique (ht_values ht ! warmupBucket x ht itm)"
  shows "(warmupMatching itm (ht_values ht ! warmupBucket x ht itm) = [] \<longrightarrow>
           (\<exists>h. insertFromWarmup x ht itm eject keyMetaDataOnly evictionPolicy =
                   warmupEject x h \<lparr> htLock = True, bucketNum = warmupBucket x ht itm \<rparr>
                     (warmupBucket x ht itm, 0) eject keyMetaDataOnly evictionPolicy
               \<and> ht_values h = (ht_values ht)[warmupBucket x ht itm :=
                    warmupNew x itm keyMetaDataOnly # ht_values ht ! warmupBucket x ht itm]
               \<and> activeState h \<and> ht_size h = ht_size ht))
       \<and> (\<forall>v. warmupMatching itm (ht_values ht ! warmupBucket x ht itm) = [v]
              \<and> (keyMetaDataOnly \<or> cas v \<noteq> 0 \<and> cas v \<noteq> item_cas itm) \<longrightarrow>
            insertFromWarmup x ht itm eject keyMetaDataOnly evictionPolicy = Inr (InvalidCas, ht))
       \<and> (\<forall>v. warmupMatching itm (ht_values ht ! warmupBucket x ht itm) = [v]
              \<and> \<not> keyMetaDataOnly \<and> (cas v = 0 \<or> cas v = item_cas itm) \<longrightarrow>
            (\<exists>h i. i < length (ht_values ht ! warmupBucket x ht itm)
               \<and> ht_values ht ! warmupBucket x ht itm ! i = v
               \<and> insertFromWarmup x ht itm eject keyMetaDataOnly evictionPolicy =
                   warmupEject x h \<lparr> htLock = True, bucketNum = warmupBucket x ht itm \<rparr>
                     (warmupBucket x ht itm, i) eject keyMetaDataOnly evictionPolicy
               \<and> ht_values h = (ht_values ht)[warmupBucket x ht itm :=
                    (ht_values ht ! warmupBucket x ht itm)[i := warmupExisting x itm v]]
               \<and> activeState h \<and> ht_size h = ht_size ht))
       \<and> (\<forall>status h. insertFromWarmup x ht itm eject keyMetaDataOnly evictionPolicy
                     = Inr (status, h) \<longrightarrow>
            status = NotFound \<or> status = InvalidCas \<and> h = ht)"
proof -
  let ?b = "warmupBucket x ht itm"
  let ?chain = "ht_values ht ! ?b"
  let ?hbl = "\<lparr> htLock = True, bucketNum = ?b \<rparr>"
  let ?k = "item_key itm"
  note a = assms [unfolded warmupBucket_def]
  from findInner_unique [OF a] obtain c p where
    fi: "findInner x ht ?k = Inr ((?hbl, c, p), ht)"
    and fc: "foundIn ?b ?chain (committedOf ?k ?chain) c"
    and fp: "foundIn ?b ?chain (pendingOf ?k ?chain) p"
    unfolding warmupBucket_def by blast
  define m where "m = (if Item_isCommitted itm then c else p)"
  have fm: "foundIn ?b ?chain (warmupMatching itm ?chain) m"
    using fc fp by (simp add: m_def warmupMatching_def)
  have part1: "\<exists>h. insertFromWarmup x ht itm eject keyMetaDataOnly evictionPolicy =
                   warmupEject x h ?hbl (?b, 0) eject keyMetaDataOnly evictionPolicy
               \<and> ht_values h = (ht_values ht)[?b := warmupNew x itm keyMetaDataOnly # ?chain]
               \<and> activeState h \<and> ht_size h = ht_size ht"
    if e: "warmupMatching itm ?chain = []"
  proof -
    from fm e have mn: "m = None" by (cases m) (simp_all add: foundIn_def)
    let ?v0 = "valFact x itm"
    let ?h1 = "(updateStats x (prologue x None) (Some ?v0) ht)
                 \<lparr> ht_values := (ht_values ht)[?b := ?v0 # ?chain] \<rparr>"
    have an: "unlocked_addNewStoredValue x ht ?hbl itm = Inr ((?b, 0), ?h1)"
      using assms by (intro addNew_ok [where hbl = ?hbl, simplified]) simp_all
    have d1: "deref ?h1 (?b, 0) = Some ?v0" using assms(3) by (simp add: deref_def)
    show ?thesis
    proof (cases keyMetaDataOnly)
      case True
      let ?w = "SV_markNotResident x ?v0"
      let ?h2 = "updateStats x (prologue x (Some ?v0)) (Some ?w) (storeSV ?h1 (?b, 0) ?w)"
      let ?h3 = "storeSV ?h2 (?b, 0) (?w\<lparr> newCacheItem := False \<rparr>)"
      have d3: "deref ?h3 (?b, 0) = Some (?w\<lparr> newCacheItem := False \<rparr>)"
        using d1 by (simp add: deref_storeSV_iff)
      have "insertFromWarmup x ht itm eject keyMetaDataOnly evictionPolicy =
          warmupEject x (storeSV ?h3 (?b, 0) (?w\<lparr> newCacheItem := False, dirty := False \<rparr>))
            ?hbl (?b, 0) eject keyMetaDataOnly evictionPolicy"
        using True mn fi an d1 finish_eq [OF d3]
        by (simp add: insertFromWarmup_def m_def [symmetric] withSV_def Let_def)
      then show ?thesis
        using True assms(1,3)
        by (intro exI [of _ "storeSV ?h3 (?b, 0) (?w\<lparr> newCacheItem := False, dirty := False \<rparr>)"])
           (simp add: warmupNew_def)
    next
      case False
      let ?h3 = "storeSV ?h1 (?b, 0) (?v0\<lparr> newCacheItem := False \<rparr>)"
      have d3: "deref ?h3 (?b, 0) = Some (?v0\<lparr> newCacheItem := False \<rparr>)"
        using d1 by (simp add: deref_storeSV_iff)
      have "insertFromWarmup x ht itm eject keyMetaDataOnly evictionPolicy =
          warmupEject x (storeSV ?h3 (?b, 0) (?v0\<lparr> newCacheItem := False, dirty := False \<rparr>))
            ?hbl (?b, 0) eject keyMetaDataOnly evictionPolicy"
        using False mn fi an d1 finish_eq [OF d3]
        by (simp add: insertFromWarmup_def m_def [symmetric] withSV_def Let_def)
      then show ?thesis
        using False assms(1,3)
        by (intro exI [of _ "storeSV ?h3 (?b, 0) (?v0\<lparr> newCacheItem := False, dirty := False \<rparr>)"])
           (simp add: warmupNew_def)
    qed
  qed
  have ex: "\<exists>q. m = Some q \<and> q = (?b, snd q) \<and> snd q < length ?chain \<and> ?chain ! snd q = v
        \<and> deref ht q = Some v"
    if e: "warmupMatching itm ?chain = [v]" for v
  proof -
    from fm e obtain q where mq: "m = Some q" by (cases m) (simp_all add: foundIn_def)
    from fm [unfolded mq] e have "fst q = ?b" "snd q < length ?chain" "?chain ! snd q = v"
      by (simp_all add: foundIn_def)
    moreover from deref_found [OF fm [unfolded mq] assms(3)]
    have "deref ht q = Some (?chain ! snd q)" "q = (?b, snd q)" by simp_all
    ultimately show ?thesis using mq by simp
  qed
  have part2: "insertFromWarmup x ht itm eject keyMetaDataOnly evictionPolicy = Inr (InvalidCas, ht)"
    if e: "warmupMatching itm ?chain = [v] \<and> (keyMetaDataOnly \<or> cas v \<noteq> 0 \<and> cas v \<noteq> item_cas itm)"
    for v
  proof -
    from ex [of v] e obtain q where mq: "m = Some q" and d: "deref ht q = Some v" by blast
    show ?thesis using e mq d fi
      by (auto simp: insertFromWarmup_def m_def [symmetric] withSV_def)
  qed
  have part3: "\<exists>h i. i < length ?chain \<and> ?chain ! i = v
               \<and> insertFromWarmup x ht itm eject keyMetaDataOnly evictionPolicy =
                   warmupEject x h ?hbl (?b, i) eject keyMetaDataOnly evictionPolicy
               \<and> ht_values h = (ht_values ht)[?b := ?chain[i := warmupExisting x itm v]]
               \<and> activeState h \<and> ht_size h = ht_size ht"
    if e: "warmupMatching itm ?chain = [v] \<and> \<not> keyMetaDataOnly \<and> (cas v = 0 \<or> cas v = item_cas itm)"
    for v
  proof -
    from ex [of v] e obtain q where mq: "m = Some q" and d: "deref ht q = Some v"
      and q: "q = (?b, snd q)" and l: "snd q < length ?chain" and n: "?chain ! snd q = v"
      by blast
    let ?f = "warmupFilled itm v"
    let ?h0 = "storeSV ht q ?f"
    have d0: "deref ?h0 q = Some ?f" using d by (simp add: deref_storeSV_iff)
    have i0: "insertFromWarmup x ht itm eject keyMetaDataOnly evictionPolicy =
        insertFromWarmup_restore x ?h0 ?hbl q itm eject keyMetaDataOnly evictionPolicy"
    proof (cases "cas v = item_cas itm")
      case True
      then have "?f = v" by (simp add: warmupFilled_def)
      then have "?h0 = ht" using d by (simp add: storeSV_same)
      then show ?thesis using True e mq d fi
        by (simp add: insertFromWarmup_def m_def [symmetric] withSV_def)
    next
      case False
      with e have z: "cas v = 0" by blast
      show ?thesis using False z e mq d fi
        by (simp add: insertFromWarmup_def m_def [symmetric] withSV_def warmupFilled_def)
    qed
    have a0: "activeState ?h0" using assms(1) by simp
    from restore_eq [OF d0 a0, of ?hbl x itm eject keyMetaDataOnly evictionPolicy]
    obtain h' where r: "insertFromWarmup_restore x ?h0 ?hbl q itm eject keyMetaDataOnly evictionPolicy
          = warmupEject x h' ?hbl q eject keyMetaDataOnly evictionPolicy"
      and v': "ht_values h' = ht_values (storeSV ?h0 q ((warmupRestored x itm ?f)\<lparr> dirty := False \<rparr>))"
      and a': "activeState h'" and s': "ht_size h' = ht_size ?h0"
      by auto
    have fq: "fst q = ?b" using q by (metis fst_conv)
    have vv: "ht_values h' = (ht_values ht)[?b := ?chain[snd q := warmupExisting x itm v]]"
      by (simp add: v' storeSV_twice fq warmupExisting_def)
    have "insertFromWarmup x ht itm eject keyMetaDataOnly evictionPolicy =
                   warmupEject x h' ?hbl (?b, snd q) eject keyMetaDataOnly evictionPolicy"
      using i0 r q by simp
    with l n vv a' s' show ?thesis
      by (intro exI [of _ h'] exI [of _ "snd q"]) simp
  qed
  have part4: "status = NotFound \<or> status = InvalidCas \<and> h = ht"
    if r: "insertFromWarmup x ht itm eject keyMetaDataOnly evictionPolicy = Inr (status, h)"
    for status h
  proof -
    have "length (warmupMatching itm ?chain) \<le> 1"
      using chainUnique_sel [OF assms(4), of ?k] by (simp add: warmupMatching_def)
    then consider "warmupMatching itm ?chain = []" | v where "warmupMatching itm ?chain = [v]"
      by (cases "warmupMatching itm ?chain") (auto simp: length_Suc_conv)
    then show ?thesis
    proof cases
      case 1
      from part1 [OF 1] r show ?thesis by (metis warmupEject_status)
    next
      case (2 v)
      show ?thesis
      proof (cases "keyMetaDataOnly \<or> cas v \<noteq> 0 \<and> cas v \<noteq> item_cas itm")
        case True
        with part2 [of v] 2 r show ?thesis by simp
      next
        case False
        with part3 [of v] 2 r show ?thesis by (metis warmupEject_status)
      qed
    qed
  qed
  show ?thesis using part1 part2 part3 part4 by blast
qed


lemma sampleZeroCas_facts:
  "key sampleZeroCas = sampleKey" "\<not> isPending sampleZeroCas" "cas sampleZeroCas = 0"
  "chainUnique [sampleZeroCas]"
  by (auto simp: chainUnique_def committedOf_def pendingOf_def hasKey_def isPending_def sample_defs)

theorem insertFromWarmup_contract_witness:
  "activeState (sampleTable [sampleZeroCas])
   \<and> 0 < ht_size (sampleTable [sampleZeroCas])
   \<and> warmupBucket simpleExternals (sampleTable [sampleZeroCas])
        (sampleItem CommittedViaMutation ''1'' 10) = 1
   \<and> chainUnique (ht_values (sampleTable [sampleZeroCas]) ! 1)
   \<and> warmupMatching (sampleItem CommittedViaMutation ''1'' 10) [sampleZeroCas] = [sampleZeroCas]
   \<and> cas sampleZeroCas = 0
   \<and> (\<exists>h. insertFromWarmup simpleExternals (sampleTable [sampleZeroCas])
              (sampleItem CommittedViaMutation ''1'' 10) False False Value = Inr (NotFound, h)
          \<and> ht_values h = [[], [sampleCommitted\<lparr> dirty := False \<rparr>], []])
   \<and> warmupMatching (sampleItem CommittedViaMutation ''1'' 10) [] = []
   \<and> (\<exists>h. insertFromWarmup simpleExternals (sampleTable [])
              (sampleItem CommittedViaMutation ''1'' 10) False True Value = Inr (NotFound, h)
          \<and> ht_values h =
              [[], [sampleCommitted\<lparr> valueBytes := None, resident := False,
                                     newCacheItem := False, dirty := False \<rparr>], []])"
proof -
  let ?t = "sampleTable [sampleZeroCas]"
  let ?e = "sampleTable []"
  let ?i = "sampleItem CommittedViaMutation ''1'' 10"
  have k: "item_key ?i = sampleKey" by (simp add: sampleItem_def)
  have b: "warmupBucket simpleExternals (sampleTable chain) ?i = 1" for chain
    by (simp add: warmupBucket_def k sample_facts sampleTable_fields)
  have h1: "activeState (sampleTable chain)" and h2: "0 < ht_size (sampleTable chain)"
    and h3: "warmupBucket simpleExternals (sampleTable chain) ?i < length (ht_values (sampleTable chain))"
    for chain
    by (simp_all add: b) (simp_all add: sampleTable_fields)
  have cz: "chainUnique [sampleZeroCas]" and ce: "chainUnique []"
    by (rule sampleZeroCas_facts(4)) (rule sample_chainUnique(4))
  have cu: "chainUnique (ht_values ?t ! 1)" using cz by (simp add: sampleTable_fields)
  have h4: "chainUnique (ht_values ?t ! warmupBucket simpleExternals ?t ?i)"
    using cz by (simp add: b) (simp add: sampleTable_fields)
  have e4: "chainUnique (ht_values ?e ! warmupBucket simpleExternals ?e ?i)"
    using ce by (simp add: b) (simp add: sampleTable_fields)
  have ic: "Item_isCommitted ?i" by (simp add: Item_isCommitted_def sampleItem_def)
  have m: "warmupMatching ?i [sampleZeroCas] = [sampleZeroCas]"
    by (simp add: warmupMatching_def ic k hasKey_def sampleZeroCas_facts)
  have me: "warmupMatching ?i [] = []" by (simp add: warmupMatching_def)
  have z: "cas sampleZeroCas = 0" by (simp add: sampleZeroCas_def)
  have we: "warmupExisting simpleExternals ?i sampleZeroCas = sampleCommitted\<lparr> dirty := False \<rparr>"
    by (simp add: warmupExisting_def warmupRestored_def warmupFilled_def sample_defs)
  have wn: "warmupNew simpleExternals ?i True =
      sampleCommitted\<lparr> valueBytes := None, resident := False, newCacheItem := False, dirty := False \<rparr>"
    by (simp add: warmupNew_def sample_defs)
  have tv: "ht_values (sampleTable chain) ! Suc 0 = chain" for chain
    by (simp add: sampleTable_fields)
  note c = insertFromWarmup_contract [OF h1 h2 h3 h4, of False False Value]
  have "\<exists>h i. i < length [sampleZeroCas] \<and> [sampleZeroCas] ! i = sampleZeroCas
       \<and> insertFromWarmup simpleExternals ?t ?i False False Value =
           warmupEject simpleExternals h \<lparr> htLock = True, bucketNum = 1 \<rparr> (1, i) False False Value
       \<and> ht_values h = (ht_values ?t)[1 := [sampleZeroCas][i := warmupExisting simpleExternals ?i sampleZeroCas]]"
    using c [THEN conjunct2, THEN conjunct2, THEN conjunct1, rule_format, of sampleZeroCas] m z
    by (simp add: tv b) blast
  then have r1: "\<exists>h. insertFromWarmup simpleExternals ?t ?i False False Value = Inr (NotFound, h)
          \<and> ht_values h = [[], [sampleCommitted\<lparr> dirty := False \<rparr>], []]"
    by (auto simp: warmupEject_def we sampleTable_fields)
  note d = insertFromWarmup_contract [OF h1 h2 h3 e4, of False True Value]
  have "\<exists>h. insertFromWarmup simpleExternals ?e ?i False True Value =
           warmupEject simpleExternals h \<lparr> htLock = True, bucketNum = 1 \<rparr> (1, 0) False True Value
       \<and> ht_values h = (ht_values ?e)[1 := [warmupNew simpleExternals ?i True]]"
    using d [THEN conjunct1] me by (simp add: tv b) blast
  then have r2: "\<exists>h. insertFromWarmup simpleExternals ?e ?i False True Value = Inr (NotFound, h)
          \<and> ht_values h =
              [[], [sampleCommitted\<lparr> valueBytes := None, resident := False,
                                     newCacheItem := False, dirty := False \<rparr>], []]"
    by (auto simp: warmupEject_def wn sampleTable_fields)
  show ?thesis using h1 h2 b cu m z r1 me r2 by blast
qed

text \<open>
  With \<open>keyMetaDataOnly\<close> set, an existing value whose CAS is zero is not filled in from
  the item: the call returns \<open>InvalidCas\<close> and the table is as before.
\<close>

theorem insertFromWarmup_zeroCas_counterexample:
  "cas sampleZeroCas = 0
   \<and> item_cas (sampleItem CommittedViaMutation ''1'' 10) = 10
   \<and> warmupMatching (sampleItem CommittedViaMutation ''1'' 10)
        (ht_values (sampleTable [sampleZeroCas]) ! 1) = [sampleZeroCas]
   \<and> insertFromWarmup simpleExternals (sampleTable [sampleZeroCas])
        (sampleItem CommittedViaMutation ''1'' 10) False True Value
       = Inr (InvalidCas, sampleTable [sampleZeroCas])"
proof -
  let ?t = "sampleTable [sampleZeroCas]"
  let ?i = "sampleItem CommittedViaMutation ''1'' 10"
  have k: "item_key ?i = sampleKey" by (simp add: sampleItem_def)
  have b: "DocKey_hash simpleExternals (item_key ?i) mod ht_size ?t = 1"
    by (simp add: k sample_facts sampleTable_fields)
  have h1: "activeState ?t" and h2: "0 < ht_size ?t"
    and h3: "DocKey_hash simpleExternals (item_key ?i) mod ht_size ?t < length (ht_values ?t)"
    by (simp_all add: b) (simp_all add: sampleTable_fields)
  have cz: "chainUnique [sampleZeroCas]" by (rule sampleZeroCas_facts(4))
  have h4: "chainUnique (ht_values ?t ! (DocKey_hash simpleExternals (item_key ?i) mod ht_size ?t))"
    using cz by (simp add: b) (simp add: sampleTable_fields)
  have ic: "Item_isCommitted ?i" by (simp add: Item_isCommitted_def sampleItem_def)
  have m: "warmupMatching ?i (ht_values ?t ! 1) = [sampleZeroCas]"
    by (simp add: warmupMatching_def ic k hasKey_def sampleZeroCas_facts sampleTable_fields)
  have h5: "(if Item_isCommitted ?i
          then committedOf (item_key ?i) (ht_values ?t ! (DocKey_hash simpleExternals (item_key ?i) mod ht_size ?t))
          else pendingOf (item_key ?i) (ht_values ?t ! (DocKey_hash simpleExternals (item_key ?i) mod ht_size ?t)))
         \<noteq> []"
    using m ic unfolding b by (simp add: warmupMatching_def)
  from findInner_unique [OF h1 h2 h3 h4] obtain c p where
    fi: "findInner simpleExternals ?t (item_key ?i) = Inr ((\<lparr> htLock = True,
           bucketNum = DocKey_hash simpleExternals (item_key ?i) mod ht_size ?t \<rparr>, c, p), ?t)"
    and fc: "foundIn (DocKey_hash simpleExternals (item_key ?i) mod ht_size ?t)
           (ht_values ?t ! (DocKey_hash simpleExternals (item_key ?i) mod ht_size ?t))
           (committedOf (item_key ?i)
              (ht_values ?t ! (DocKey_hash simpleExternals (item_key ?i) mod ht_size ?t))) c"
    by blast
  from found_nonempty [OF fc] h5 ic obtain q where "c = Some q" by auto
  with ic have "(if Item_isCommitted ?i then c else p) = Some q" by simp
  from warmup_metaOnly_found [OF fi this, of False Value]
  show ?thesis using m by (simp add: sampleZeroCas_def sampleItem_def)
qed

subsection \<open>The dual-entry invariant\<close>

lemma filter_update_length:
  "i < length xs \<Longrightarrow> P y = P (xs ! i) \<Longrightarrow>
     length (filter P (xs[i := y])) = length (filter P xs)"
proof (induction xs arbitrary: i)
  case Nil then show ?case by simp
next
  case (Cons a xs) then show ?case by (cases i) auto
qed

lemma chainUnique_update:
  assumes "chainUnique chain" and "i < length chain"
    and "key w = key (chain ! i)" and "isPending w = isPending (chain ! i)"
  shows "chainUnique (chain[i := w])"
  using assms
  by (simp add: chainUnique_def committedOf_def pendingOf_def hasKey_def filter_update_length)

lemma chainUnique_cons:
  assumes "chainUnique chain"
    and "if isPending v then pendingOf (key v) chain = [] else committedOf (key v) chain = []"
  shows "chainUnique (v # chain)"
  unfolding chainUnique_def
proof (intro allI)
  fix k
  from assms(1) have u: "length (committedOf k chain) \<le> 1" "length (pendingOf k chain) \<le> 1"
    by (simp_all add: chainUnique_def)
  show "length (committedOf k (v # chain)) \<le> 1 \<and> length (pendingOf k (v # chain)) \<le> 1"
    using u assms(2) by (auto simp: hasKey_def split: if_splits)
qed

lemma removeFirst_filter:
  "hashChainRemoveFirst pred i chain = Some (r, chain') \<Longrightarrow>
     length (filter P chain') \<le> length (filter P chain) \<and> set chain' \<subseteq> set chain"
proof (induction chain arbitrary: i chain')
  case Nil then show ?case by simp
next
  case (Cons v vs)
  show ?case
  proof (cases "pred i v")
    case True
    with Cons.prems show ?thesis by auto
  next
    case False
    with Cons.prems obtain vs' where r: "hashChainRemoveFirst pred (Suc i) vs = Some (r, vs')"
      and c: "chain' = v # vs'"
      by (auto split: option.splits)
    from Cons.IH [OF r] c show ?thesis by auto
  qed
qed

lemma chainUnique_remove:
  "hashChainRemoveFirst pred i chain = Some (r, chain') \<Longrightarrow> chainUnique chain \<Longrightarrow>
     chainUnique chain'"
  unfolding chainUnique_def committedOf_def pendingOf_def
  by (meson removeFirst_filter le_trans)

lemma tableInv_cong:
  "ht_values h = ht_values ht \<Longrightarrow> ht_size h = ht_size ht \<Longrightarrow> tableInv x h = tableInv x ht"
  by (simp add: tableInv_def dualEntryUnique_def)

lemma tableInv_wrappers [simp]:
  "tableInv x (updateStats x' pre v ht) = tableInv x ht"
  "tableInv x (addValueEject ht) = tableInv x ht"
  "tableInv x (addFailedEject ht) = tableInv x ht"
  "tableInv x (updateMaxDeletedRevSeqno n ht) = tableInv x ht"
  "tableInv x (ht\<lparr> numEjects := m \<rparr>) = tableInv x ht"
  "tableInv x (snd (updateFreqCounter x' w ht)) = tableInv x ht"
  "tableInv x (addMemOverhead d ht) = tableInv x ht"
  by (rule tableInv_cong;
      simp add: updateStats_def addValueEject_def addFailedEject_def
        updateMaxDeletedRevSeqno_def updateFreqCounter_def Let_def addMemOverhead_def)+

lemma tableInv_values:
  assumes "tableInv x ht" and "b < length (ht_values ht)"
    and "chainUnique chain" and "\<forall>v \<in> set chain. DocKey_hash x (key v) mod ht_size ht = b"
  shows "tableInv x (ht\<lparr> ht_values := (ht_values ht)[b := chain] \<rparr>)"
proof -
  have "placed x (ht_size ht) ((ht_values ht)[b := chain])"
    unfolding placed_def
  proof (intro allI impI ballI)
    fix c v assume c: "c < length ((ht_values ht)[b := chain])"
      and v: "v \<in> set ((ht_values ht)[b := chain] ! c)"
    show "DocKey_hash x (key v) mod ht_size ht = c"
    proof (cases "c = b")
      case True with assms c v show ?thesis by simp
    next
      case False with assms(1) c v show ?thesis by (auto simp: tableInv_def placed_def)
    qed
  qed
  moreover have "\<forall>c \<in> set ((ht_values ht)[b := chain]). chainUnique c"
    using assms(1,3) set_update_subset_insert [of "ht_values ht" b chain]
    by (auto simp: tableInv_def dualEntryUnique_def)
  ultimately show ?thesis using assms(1) by (simp add: tableInv_def dualEntryUnique_def)
qed

lemma tableInv_chain:
  "tableInv x ht \<Longrightarrow> b < length (ht_values ht) \<Longrightarrow>
     chainUnique (ht_values ht ! b)
     \<and> (\<forall>v \<in> set (ht_values ht ! b). DocKey_hash x (key v) mod ht_size ht = b)"
  by (auto simp: tableInv_def dualEntryUnique_def placed_def)

lemma tableInv_storeSV:
  assumes "tableInv x ht" and "deref ht p = Some v" and "key w = key v"
    and "isPending w = isPending v"
  shows "tableInv x (storeSV ht p w)"
proof -
  from assms(2) have b: "fst p < length (ht_values ht)"
    and i: "snd p < length (ht_values ht ! fst p)" and v: "ht_values ht ! fst p ! snd p = v"
    by (auto simp: deref_def split: if_splits)
  from tableInv_chain [OF assms(1) b]
  have cu: "chainUnique (ht_values ht ! fst p)"
    and pl: "\<forall>u \<in> set (ht_values ht ! fst p). DocKey_hash x (key u) mod ht_size ht = fst p"
    by simp_all
  have "chainUnique ((ht_values ht ! fst p)[snd p := w])"
    using cu i assms(3,4) v by (intro chainUnique_update) simp_all
  moreover have "\<forall>u \<in> set ((ht_values ht ! fst p)[snd p := w]).
      DocKey_hash x (key u) mod ht_size ht = fst p"
  proof
    fix u assume "u \<in> set ((ht_values ht ! fst p)[snd p := w])"
    then have "u = w \<or> u \<in> set (ht_values ht ! fst p)"
      using set_update_subset_insert [of "ht_values ht ! fst p" "snd p" w] by auto
    moreover have "v \<in> set (ht_values ht ! fst p)" using i v by (auto simp: in_set_conv_nth)
    ultimately show "DocKey_hash x (key u) mod ht_size ht = fst p"
      using pl assms(3) by auto
  qed
  ultimately show ?thesis
    unfolding storeSV_def by (rule tableInv_values [OF assms(1) b])
qed

lemma tableInv_remove:
  assumes "tableInv x ht" and "b < length (ht_values ht)"
    and "hashChainRemoveFirst pred i (ht_values ht ! b) = Some (r, chain)"
  shows "tableInv x (ht\<lparr> ht_values := (ht_values ht)[b := chain] \<rparr>)"
proof -
  from tableInv_chain [OF assms(1,2)] removeFirst_filter [OF assms(3)]
    chainUnique_remove [OF assms(3)]
  have "chainUnique chain" and "\<forall>v \<in> set chain. DocKey_hash x (key v) mod ht_size ht = b"
    by auto
  then show ?thesis by (rule tableInv_values [OF assms(1,2)])
qed

lemma tableInv_addHead:
  assumes "tableInv x ht" and "b < length (ht_values ht)"
    and "DocKey_hash x (key v) mod ht_size ht = b"
    and "if isPending v then pendingOf (key v) (ht_values ht ! b) = []
         else committedOf (key v) (ht_values ht ! b) = []"
  shows "tableInv x (ht\<lparr> ht_values := (ht_values ht)[b := v # ht_values ht ! b] \<rparr>)"
proof -
  from tableInv_chain [OF assms(1,2)]
  have "chainUnique (v # ht_values ht ! b)"
    and "\<forall>u \<in> set (v # ht_values ht ! b). DocKey_hash x (key u) mod ht_size ht = b"
    using assms(3,4) by (auto intro: chainUnique_cons)
  then show ?thesis by (rule tableInv_values [OF assms(1,2)])
qed

lemma tableInv_new: "tableInv x (newHashTable st n locks)"
  by (simp add: tableInv_def newHashTable_def placed_def dualEntryUnique_def chainUnique_def)

lemma keepsInv_Inl [simp]: "keepsInv x (Inl (e, h)) \<longleftrightarrow> (e \<noteq> undefined_behaviour \<longrightarrow> tableInv x h)"
  by (simp add: keepsInv_def outcome_def)

lemma keepsInv_Inr [simp]: "keepsInv x (Inr (a, h)) \<longleftrightarrow> tableInv x h"
  by (simp add: keepsInv_def outcome_def)

lemma keepsInv_withSV:
  "(\<And>v. deref ht p = Some v \<Longrightarrow> keepsInv x (f v)) \<Longrightarrow> keepsInv x (withSV ht p f)"
  by (cases "deref ht p") (simp_all add: withSV_def)

lemma keepsInv_bind:
  assumes "keepsInv x r"
    and "\<And>a h. r = Inr (a, h) \<Longrightarrow> tableInv x h \<Longrightarrow> keepsInv x (g a h)"
  shows "keepsInv x (case r of Inl e \<Rightarrow> Inl e | Inr (a, h) \<Rightarrow> g a h)"
proof (cases r)
  case (Inl e)
  with assms(1) show ?thesis by (cases e) simp
next
  case (Inr ah)
  with assms show ?thesis by (cases ah) simp
qed

lemma keepsInv_dropReleased: "keepsInv x (dropReleased r) = keepsInv x r"
  by (cases r) (auto simp: dropReleased_def keepsInv_def outcome_def split: prod.splits)

lemma ext_facts:
  assumes "externalsKeepIdentity x"
  shows "key (SV_setValue x v itm) = key v"
    and "\<not> isPending v \<Longrightarrow> \<not> Item_isPending itm \<Longrightarrow> \<not> isPending (SV_setValue x v itm)"
    and "key (SV_markDeleted x v s) = key v" "isPending (SV_markDeleted x v s) = isPending v"
    and "key (SV_del x v s) = key v" "isPending (SV_del x v s) = isPending v"
    and "key (SV_markNotResident x v) = key v" "isPending (SV_markNotResident x v) = isPending v"
    and "key (SV_ejectValue x v) = key v" "isPending (SV_ejectValue x v) = isPending v"
    and "key (SV_restoreValue x v itm) = key v" "isPending (SV_restoreValue x v itm) = isPending v"
    and "key (SV_restoreMeta x v itm) = key v" "isPending (SV_restoreMeta x v itm) = isPending v"
    and "key (valFact x itm) = item_key itm" "isPending (valFact x itm) = Item_isPending itm"
  using assms by (simp_all add: externalsKeepIdentity_def keepsIdentity_def)

lemma isPending_fields [simp]:
  "isPending (v\<lparr> dirty := d \<rparr>) = isPending v"
  "isPending (v\<lparr> newCacheItem := n \<rparr>) = isPending v"
  "isPending (v\<lparr> freqCounter := c \<rparr>) = isPending v"
  "isPending (v\<lparr> cas := a, flags := f, exptime := e, revSeqno := r \<rparr>) = isPending v"
  by (simp_all add: isPending_def)

lemma deref_updateFreqCounter [simp]:
  "deref (snd (updateFreqCounter x w ht)) p = deref ht p"
  by (simp add: deref_def)

lemma addNew_keeps:
  assumes "tableInv x ht" and "externalsKeepIdentity x" and "addNewAllowed x ht hbl itm"
  shows "keepsInv x (unlocked_addNewStoredValue x ht hbl itm)"
proof (cases "htLock hbl \<and> activeState ht \<and> bucketNum hbl < length (ht_values ht)")
  case False
  with assms(1) show ?thesis by (auto simp: unlocked_addNewStoredValue_def)
next
  case True
  let ?v = "valFact x itm"
  have "tableInv x (ht\<lparr> ht_values := (ht_values ht)[bucketNum hbl := ?v # ht_values ht ! bucketNum hbl] \<rparr>)"
    using assms(3) True ext_facts(15,16) [OF assms(2)]
    by (intro tableInv_addHead [OF assms(1)]) (auto simp: addNewAllowed_def split: if_splits)
  then have "tableInv x ((updateStats x (prologue x None) (Some ?v) ht)
      \<lparr> ht_values := (ht_values ht)[bucketNum hbl := ?v # ht_values ht ! bucketNum hbl] \<rparr>)"
    by (simp add: tableInv_def dualEntryUnique_def)
  with True show ?thesis by (simp add: addNew_ok)
qed

lemma update_keeps:
  assumes "tableInv x ht" and "externalsKeepIdentity x"
    and "\<forall>v. deref ht p = Some v \<and> \<not> isPending v \<and> Item_isPending itm \<longrightarrow>
          addNewAllowed x ht hbl itm"
  shows "keepsInv x (unlocked_updateStoredValue x ht hbl p itm)"
proof (cases "htLock hbl \<and> activeState ht")
  case False
  with assms(1) show ?thesis by (auto simp: unlocked_updateStoredValue_def)
next
  case True
  have "keepsInv x (withSV ht p (\<lambda>v.
        (case committed v of
           Pending \<Rightarrow> Inr ((IsPendingSyncWrite, None), ht)
         | PreparedMaybeVisible \<Rightarrow> Inr ((IsPendingSyncWrite, None), ht)
         | _ \<Rightarrow>
             if Item_isPending itm
             then (case unlocked_addNewStoredValue x ht hbl itm of
                     Inl e \<Rightarrow> Inl e
                   | Inr (sv, ht1) \<Rightarrow> Inr ((WasClean, Some sv), ht1))
             else
               let status = (if dirty v then WasDirty else WasClean);
                   preProps = prologue x (Some v);
                   v1 = SV_setValue x v itm;
                   (v2, ht1) = updateFreqCounter x v1 ht;
                   ht2 = storeSV ht1 p v2;
                   ht3 = updateStats x preProps (Some v2) ht2
               in Inr ((status, Some p), ht3))))"
  proof (rule keepsInv_withSV)
    fix v assume d: "deref ht p = Some v"
    show "keepsInv x (case committed v of
           Pending \<Rightarrow> Inr ((IsPendingSyncWrite, None), ht)
         | PreparedMaybeVisible \<Rightarrow> Inr ((IsPendingSyncWrite, None), ht)
         | _ \<Rightarrow>
             if Item_isPending itm
             then (case unlocked_addNewStoredValue x ht hbl itm of
                     Inl e \<Rightarrow> Inl e
                   | Inr (sv, ht1) \<Rightarrow> Inr ((WasClean, Some sv), ht1))
             else
               let status = (if dirty v then WasDirty else WasClean);
                   preProps = prologue x (Some v);
                   v1 = SV_setValue x v itm;
                   (v2, ht1) = updateFreqCounter x v1 ht;
                   ht2 = storeSV ht1 p v2;
                   ht3 = updateStats x preProps (Some v2) ht2
               in Inr ((status, Some p), ht3))"
    proof (cases "isPending v")
      case True
      then show ?thesis using assms(1) by (cases "committed v") (simp_all add: isPending_def)
    next
      case np: False
      show ?thesis
      proof (cases "Item_isPending itm")
        case True
        with assms(3) d np have "addNewAllowed x ht hbl itm" by blast
        from addNew_keeps [OF assms(1,2) this]
        have "keepsInv x (case unlocked_addNewStoredValue x ht hbl itm of
                     Inl e \<Rightarrow> Inl e
                   | Inr (sv, ht1) \<Rightarrow> Inr ((WasClean, Some sv), ht1))"
          by (rule keepsInv_bind) simp
        with True np show ?thesis by (cases "committed v") (simp_all add: isPending_def)
      next
        case False
        let ?v2 = "(SV_setValue x v itm)\<lparr> freqCounter := generateValue x (freqCounter (SV_setValue x v itm)) \<rparr>"
        have d1: "deref (snd (updateFreqCounter x (SV_setValue x v itm) ht)) p = Some v"
          using d by simp
        have "tableInv x (storeSV (snd (updateFreqCounter x (SV_setValue x v itm) ht)) p ?v2)"
          using ext_facts(1,2) [OF assms(2)] np False assms(1)
          by (intro tableInv_storeSV [OF _ d1]) simp_all
        with False np show ?thesis
          by (cases "committed v")
             (simp_all add: isPending_def Let_def split_beta updateFreqCounter_fst)
      qed
    qed
  qed
  with True show ?thesis by (simp add: unlocked_updateStoredValue_def)
qed

lemma softDelete_keeps:
  assumes "tableInv x ht" and "externalsKeepIdentity x"
  shows "keepsInv x (unlocked_softDelete x ht hbl p onlyMarkDeleted delSource)"
  unfolding unlocked_softDelete_def
proof (rule keepsInv_withSV)
  fix v assume d: "deref ht p = Some v"
  have "tableInv x (storeSV ht p (SV_markDeleted x v delSource))"
    and "tableInv x (storeSV ht p (SV_del x v delSource))"
    using ext_facts(3-6) [OF assms(2)]
    by (auto intro!: tableInv_storeSV [OF assms(1) d])
  then show "keepsInv x (case committed v of
          Pending \<Rightarrow> Inr ((DeletionIsPendingSyncWrite, None), ht)
        | PreparedMaybeVisible \<Rightarrow> Inr ((DeletionIsPendingSyncWrite, None), ht)
        | _ \<Rightarrow>
            let preProps = prologue x (Some v);
                v1 = (if onlyMarkDeleted then SV_markDeleted x v delSource
                      else SV_del x v delSource);
                ht1 = storeSV ht p v1;
                ht2 = updateStats x preProps (Some v1) ht1
            in Inr ((DeletionSuccess, Some p), ht2))"
    using assms(1) by (cases "committed v") (simp_all add: Let_def)
qed

lemma release_inner_keeps:
  assumes "tableInv x ht"
  shows "keepsInv x (unlocked_release_inner x ht hbl pred)"
proof (cases "htLock hbl \<and> activeState ht \<and> bucketNum hbl < length (ht_values ht)")
  case False
  with assms show ?thesis by (auto simp: unlocked_release_inner_def)
next
  case True
  show ?thesis
  proof (cases "hashChainRemoveFirst pred 0 (ht_values ht ! bucketNum hbl)")
    case None
    with True assms show ?thesis by (simp add: unlocked_release_inner_def)
  next
    case (Some rc)
    obtain r chain where rc: "rc = (r, chain)" by (cases rc)
    from tableInv_remove [OF assms _ Some [unfolded rc]] True
    have "tableInv x (ht\<lparr> ht_values := (ht_values ht)[bucketNum hbl := chain] \<rparr>)" by simp
    with True Some rc show ?thesis by (simp add: unlocked_release_inner_def Let_def)
  qed
qed

lemma eject_keeps:
  assumes "tableInv x ht" and "externalsKeepIdentity x"
  shows "keepsInv x (unlocked_ejectItem x ht hbl vptr policy)"
proof (cases vptr)
  case None
  with assms(1) show ?thesis by (simp add: unlocked_ejectItem_def)
next
  case (Some p)
  have "keepsInv x (withSV ht p (\<lambda>v.
          if \<not> SV_eligibleForEviction x v policy then Inr (False, addFailedEject ht)
          else
            let preProps = prologue x (Some v)
            in (case policy of
                  Value \<Rightarrow>
                    let v1 = SV_ejectValue x v;
                        ht1 = addValueEject (storeSV ht p v1);
                        ht2 = updateStats x preProps (Some v1) ht1
                    in Inr (True, ht2\<lparr> numEjects := Suc (numEjects ht2) \<rparr>)
                | Full \<Rightarrow>
                    (case getBucketForHash (ht_size ht) (DocKey_hash x (key v)) of
                       None \<Rightarrow> Inl (undefined_behaviour, ht)
                     | Some bucket_num \<Rightarrow>
                         if \<not> bucket_num < length (ht_values ht)
                         then Inl (undefined_behaviour, ht)
                         else (case hashChainRemoveFirst (\<lambda>i w. (bucket_num, i) = p) 0
                                      (ht_values ht ! bucket_num) of
                                 None \<Rightarrow> Inl (undefined_behaviour, ht)
                               | Some (removed, chain) \<Rightarrow>
                                   let ht1 = ht\<lparr> ht_values :=
                                               (ht_values ht)[bucket_num := chain] \<rparr>;
                                       ht2 = (if resident removed then addValueEject ht1
                                              else ht1);
                                       ht3 = updateStats x preProps None ht2;
                                       ht4 = updateMaxDeletedRevSeqno (revSeqno v) ht3
                                   in Inr (True, ht4\<lparr> numEjects := Suc (numEjects ht4) \<rparr>))))))"
  proof (rule keepsInv_withSV)
    fix v assume d: "deref ht p = Some v"
    have ev: "tableInv x (storeSV ht p (SV_ejectValue x v))"
      using ext_facts(9,10) [OF assms(2)] by (intro tableInv_storeSV [OF assms(1) d]) simp_all
    have rm: "tableInv x (ht\<lparr> ht_values := (ht_values ht)[b := chain] \<rparr>)"
      if "b < length (ht_values ht)"
        and "hashChainRemoveFirst (\<lambda>i w. (b, i) = p) 0 (ht_values ht ! b) = Some (removed, chain)"
      for b removed chain
      using tableInv_remove [OF assms(1) that] .
    show "keepsInv x (
          if \<not> SV_eligibleForEviction x v policy then Inr (False, addFailedEject ht)
          else
            let preProps = prologue x (Some v)
            in (case policy of
                  Value \<Rightarrow>
                    let v1 = SV_ejectValue x v;
                        ht1 = addValueEject (storeSV ht p v1);
                        ht2 = updateStats x preProps (Some v1) ht1
                    in Inr (True, ht2\<lparr> numEjects := Suc (numEjects ht2) \<rparr>)
                | Full \<Rightarrow>
                    (case getBucketForHash (ht_size ht) (DocKey_hash x (key v)) of
                       None \<Rightarrow> Inl (undefined_behaviour, ht)
                     | Some bucket_num \<Rightarrow>
                         if \<not> bucket_num < length (ht_values ht)
                         then Inl (undefined_behaviour, ht)
                         else (case hashChainRemoveFirst (\<lambda>i w. (bucket_num, i) = p) 0
                                      (ht_values ht ! bucket_num) of
                                 None \<Rightarrow> Inl (undefined_behaviour, ht)
                               | Some (removed, chain) \<Rightarrow>
                                   let ht1 = ht\<lparr> ht_values :=
                                               (ht_values ht)[bucket_num := chain] \<rparr>;
                                       ht2 = (if resident removed then addValueEject ht1
                                              else ht1);
                                       ht3 = updateStats x preProps None ht2;
                                       ht4 = updateMaxDeletedRevSeqno (revSeqno v) ht3
                                   in Inr (True, ht4\<lparr> numEjects := Suc (numEjects ht4) \<rparr>)))))"
      using assms(1) ev rm
      by (cases policy) (auto simp: Let_def split: option.splits)
  qed
  with Some show ?thesis by (simp add: unlocked_ejectItem_def)
qed

lemma restoreValue_keeps:
  assumes "tableInv x ht" and "externalsKeepIdentity x"
  shows "keepsInv x (unlocked_restoreValue x ht l itm p)"
proof (cases "\<not> l \<or> \<not> activeState ht")
  case True
  with assms(1) show ?thesis by (auto simp: unlocked_restoreValue_def)
next
  case False
  have "keepsInv x (withSV ht p (\<lambda>v.
        if resident v then Inr (False, ht)
        else
          let preProps = prologue x (Some v);
              v1 = (if tempItem v then v\<lparr> newCacheItem := False \<rparr> else v);
              v2 = SV_restoreValue x v1 itm;
              ht1 = storeSV ht p v2;
              ht2 = updateStats x preProps (Some v2) ht1
          in Inr (True, ht2)))"
  proof (rule keepsInv_withSV)
    fix v assume d: "deref ht p = Some v"
    have "tableInv x (storeSV ht p (SV_restoreValue x (if tempItem v then v\<lparr> newCacheItem := False \<rparr> else v) itm))"
      using ext_facts(11,12) [OF assms(2)]
      by (intro tableInv_storeSV [OF assms(1) d]) simp_all
    then show "keepsInv x (
        if resident v then Inr (False, ht)
        else
          let preProps = prologue x (Some v);
              v1 = (if tempItem v then v\<lparr> newCacheItem := False \<rparr> else v);
              v2 = SV_restoreValue x v1 itm;
              ht1 = storeSV ht p v2;
              ht2 = updateStats x preProps (Some v2) ht1
          in Inr (True, ht2))"
      using assms(1) by (simp add: Let_def)
  qed
  with False show ?thesis by (simp add: unlocked_restoreValue_def)
qed

lemma restoreMeta_keeps:
  assumes "tableInv x ht" and "externalsKeepIdentity x"
  shows "keepsInv x (unlocked_restoreMeta x ht l itm p)"
proof (cases "l \<and> activeState ht")
  case False
  with assms(1) show ?thesis by (auto simp: unlocked_restoreMeta_def)
next
  case True
  have "keepsInv x (withSV ht p (\<lambda>v.
          let preProps = prologue x (Some v);
              v1 = SV_restoreMeta x v itm;
              ht1 = storeSV ht p v1;
              ht2 = updateStats x preProps (Some v1) ht1
          in Inr ((), ht2)))"
  proof (rule keepsInv_withSV)
    fix v assume d: "deref ht p = Some v"
    have "tableInv x (storeSV ht p (SV_restoreMeta x v itm))"
      using ext_facts(13,14) [OF assms(2)]
      by (intro tableInv_storeSV [OF assms(1) d]) simp_all
    then show "keepsInv x (
          let preProps = prologue x (Some v);
              v1 = SV_restoreMeta x v itm;
              ht1 = storeSV ht p v1;
              ht2 = updateStats x preProps (Some v1) ht1
          in Inr ((), ht2))"
      by (simp add: Let_def)
  qed
  with True show ?thesis by (simp add: unlocked_restoreMeta_def)
qed

lemma filter_concat_none:
  "(\<forall>c \<in> set cs. \<forall>v \<in> set c. \<not> P v) \<Longrightarrow> filter P (concat cs) = []"
  by (induction cs) auto

lemma filter_concat_placed:
  assumes "placed x sz vals" and "b0 < length vals"
    and "\<forall>v. P v \<longrightarrow> DocKey_hash x (key v) mod sz = b0"
  shows "filter P (concat vals) = filter P (vals ! b0)"
proof -
  have other: "\<not> P v" if "j < length vals" "j \<noteq> b0" "v \<in> set (vals ! j)" for j v
    using assms(1,3) that by (auto simp: placed_def)
  have t: "filter P (concat (take b0 vals)) = []"
  proof (rule filter_concat_none, intro ballI)
    fix c v assume "c \<in> set (take b0 vals)" "v \<in> set c"
    then obtain j where "j < b0" "j < length vals" "c = vals ! j"
      by (auto simp: in_set_conv_nth)
    with other [of j v] \<open>v \<in> set c\<close> show "\<not> P v" by simp
  qed
  have d: "filter P (concat (drop (Suc b0) vals)) = []"
  proof (rule filter_concat_none, intro ballI)
    fix c v assume "c \<in> set (drop (Suc b0) vals)" "v \<in> set c"
    then obtain i where i: "i < length (drop (Suc b0) vals)" and ci: "c = drop (Suc b0) vals ! i"
      by (metis in_set_conv_nth)
    from i have j: "Suc b0 + i < length vals" by simp
    then have "c = vals ! (Suc b0 + i)" using ci by simp
    with other [of "Suc b0 + i" v] j \<open>v \<in> set c\<close> show "\<not> P v" by simp
  qed
  have "vals = take b0 vals @ vals ! b0 # drop (Suc b0) vals"
    using assms(2) by (rule id_take_nth_drop)
  then have "concat vals = concat (take b0 vals) @ vals ! b0 @ concat (drop (Suc b0) vals)"
    by (metis concat.simps(2) concat_append)
  then show ?thesis by (simp add: t d)
qed

lemma filter_nth_le_concat:
  "b < length vals \<Longrightarrow> length (filter P (vals ! b)) \<le> length (filter P (concat vals))"
proof (induction vals arbitrary: b)
  case Nil then show ?case by simp
next
  case (Cons c cs)
  then show ?case by (cases b) (auto intro: trans_le_add2)
qed

lemma unique_all_chains:
  assumes "length vals = sz" and "placed x sz vals" and "\<forall>c \<in> set vals. chainUnique c"
    and "\<forall>v. P v \<longrightarrow> key v = k"
    and "P = (\<lambda>v. hasKey v k \<and> \<not> isPending v) \<or> P = (\<lambda>v. hasKey v k \<and> isPending v)"
  shows "length (filter P (concat vals)) \<le> 1"
proof (cases "sz = 0")
  case True
  with assms(1) show ?thesis by simp
next
  case False
  let ?b0 = "DocKey_hash x k mod sz"
  have b0: "?b0 < length vals" using False assms(1) by simp
  have "\<forall>v. P v \<longrightarrow> DocKey_hash x (key v) mod sz = ?b0" using assms(4) by auto
  from filter_concat_placed [OF assms(2) b0 this]
  have "filter P (concat vals) = filter P (vals ! ?b0)" .
  moreover have "chainUnique (vals ! ?b0)" using assms(3) b0 by simp
  then have "length (filter P (vals ! ?b0)) \<le> 1"
    using assms(5) by (auto simp: chainUnique_def committedOf_def pendingOf_def)
  ultimately show ?thesis by simp
qed

lemma rebucket_unique:
  assumes "tableInv x ht"
    and "rebucket x n (ht_values ht) 0 (ht_size ht) (replicate n []) = Some nv"
  shows "\<forall>c \<in> set nv. chainUnique c"
proof
  fix c assume "c \<in> set nv"
  then obtain b where b: "b < length nv" and c: "c = nv ! b" by (auto simp: in_set_conv_nth)
  from assms(1) have l: "length (ht_values ht) = ht_size ht"
    and p: "placed x (ht_size ht) (ht_values ht)"
    and u: "\<forall>c \<in> set (ht_values ht). chainUnique c"
    by (simp_all add: tableInv_def dualEntryUnique_def)
  have ms: "mset (concat nv) = mset (concat (ht_values ht))"
    using rebucket_mset [OF assms(2)] l by simp
  have le: "length (filter P c) \<le> 1"
    if "\<forall>v. P v \<longrightarrow> key v = k"
      and "P = (\<lambda>v. hasKey v k \<and> \<not> isPending v) \<or> P = (\<lambda>v. hasKey v k \<and> isPending v)"
    for P k
  proof -
    have "length (filter P c) \<le> length (filter P (concat nv))"
      unfolding c using b by (rule filter_nth_le_concat)
    also have "\<dots> = size (filter_mset P (mset (concat nv)))"
      by (simp only: mset_filter [symmetric] size_mset)
    also have "\<dots> = size (filter_mset P (mset (concat (ht_values ht))))" by (simp only: ms)
    also have "\<dots> = length (filter P (concat (ht_values ht)))"
      by (simp only: mset_filter [symmetric] size_mset)
    also have "\<dots> \<le> 1" using unique_all_chains [OF l p u that] .
    finally show ?thesis .
  qed
  show "chainUnique c"
    unfolding chainUnique_def committedOf_def pendingOf_def
  proof (intro allI conjI)
    fix k
    show "length (filter (\<lambda>v. hasKey v k \<and> \<not> isPending v) c) \<le> 1"
      by (rule le [of _ k]) (simp_all add: hasKey_def)
    show "length (filter (\<lambda>v. hasKey v k \<and> isPending v) c) \<le> 1"
      by (rule le [of _ k]) (simp_all add: hasKey_def)
  qed
qed

lemma resize_keeps:
  assumes "tableInv x ht"
  shows "keepsInv x (resize x ht n)"
proof (cases "activeState ht \<and> n \<le> INT_MAX \<and> n \<noteq> ht_size ht \<and> visitors ht = 0")
  case False
  with assms show ?thesis by (auto simp: resize_def)
next
  case True
  then have rs: "resize x ht n =
     (case rebucket x n (ht_values ht) 0 (ht_size ht) (replicate n []) of
        None \<Rightarrow> Inl (undefined_behaviour,
                  (addMemOverhead (- memorySize x (ht_size ht)) ht)
                    \<lparr> numResizes := Suc (numResizes ht), ht_size := n \<rparr>)
      | Some nv \<Rightarrow> Inr ((), addMemOverhead (memorySize x n)
                  ((addMemOverhead (- memorySize x (ht_size ht)) ht)
                    \<lparr> numResizes := Suc (numResizes ht), ht_size := n,
                       ht_values := nv \<rparr>)))"
    by (intro resize_rebuckets) simp_all
  show ?thesis
  proof (cases "rebucket x n (ht_values ht) 0 (ht_size ht) (replicate n [])")
    case None
    then show ?thesis by (simp add: rs)
  next
    case (Some nv)
    have "length nv = n" using rebucket_length [OF Some] by simp
    moreover have "placed x n nv" using rebucket_placed [OF Some placed_replicate] .
    moreover note rebucket_unique [OF assms Some]
    ultimately have "tableInv x ((addMemOverhead (- memorySize x (ht_size ht)) ht)
                    \<lparr> numResizes := Suc (numResizes ht), ht_size := n, ht_values := nv \<rparr>)"
      by (simp add: tableInv_def dualEntryUnique_def)
    then show ?thesis by (simp add: rs Some)
  qed
qed

lemma findInner_Inl: "findInner x ht k = Inl (e, h) \<Longrightarrow> h = ht"
  by (auto simp: findInner_def split: if_splits option.splits)

lemma findInner_Inr:
  assumes "findInner x ht k = Inr ((hbl, c, p), h)"
  shows "h = ht \<and> activeState ht \<and> htLock hbl
       \<and> bucketNum hbl = DocKey_hash x k mod ht_size ht
       \<and> bucketNum hbl < length (ht_values ht)
       \<and> foundIn (bucketNum hbl) (ht_values ht ! bucketNum hbl)
            (committedOf k (ht_values ht ! bucketNum hbl)) c
       \<and> foundIn (bucketNum hbl) (ht_values ht ! bucketNum hbl)
            (pendingOf k (ht_values ht ! bucketNum hbl)) p"
proof -
  let ?b = "DocKey_hash x k mod ht_size ht"
  from assms have a: "activeState ht" and z: "ht_size ht \<noteq> 0" and l: "?b < length (ht_values ht)"
    by (auto simp: findInner_def getLockedBucket_def getBucketForHash_def
        split: if_splits option.splits)
  from assms a z l obtain c0 p0 where
    sc: "findInner_scan k (ht_values ht ! ?b) 0 None None = Some (c0, p0)"
    and r: "hbl = \<lparr> htLock = True, bucketNum = ?b \<rparr>" "c = map_option (Pair ?b) c0"
      "p = map_option (Pair ?b) p0" "h = ht"
    by (auto simp: findInner_def getLockedBucket_def getBucketForHash_def
        split: if_splits option.splits)
  from scan_result [OF sc]
  have "foundIn ?b (ht_values ht ! ?b) (committedOf k (ht_values ht ! ?b)) (map_option (Pair ?b) c0)"
    and "foundIn ?b (ht_values ht ! ?b) (pendingOf k (ht_values ht ! ?b)) (map_option (Pair ?b) p0)"
    by (auto simp: foundIn_def split: if_splits)
  with a l r show ?thesis by simp
qed

lemma foundIn_Some:
  "foundIn b (ht_values ht ! b) sel (Some q) \<Longrightarrow> b < length (ht_values ht) \<Longrightarrow>
     \<exists>v. deref ht q = Some v \<and> sel = [v]"
  by (cases q) (auto simp: foundIn_def deref_def)

lemma foundIn_None: "foundIn b chain sel None \<Longrightarrow> sel = []"
  by (simp add: foundIn_def)

lemma set_keeps:
  assumes "tableInv x ht" and "externalsKeepIdentity x"
  shows "keepsInv x (HashTable_set x ht itm)"
proof (cases "findInner x ht (item_key itm)")
  case (Inl eh)
  obtain e h where "eh = (e, h)" by (cases eh)
  with Inl findInner_Inl [of x ht "item_key itm" e h] assms(1)
  show ?thesis by (simp add: HashTable_set_def findForWrite_def)
next
  case (Inr rh)
  obtain hbl c p h where rh: "rh = ((hbl, c, p), h)" by (cases rh) auto
  let ?k = "item_key itm"
  let ?chain = "ht_values ht ! bucketNum hbl"
  from findInner_Inr [OF Inr [unfolded rh]]
  have h: "h = ht" and a: "activeState ht" and lk: "htLock hbl"
    and b: "bucketNum hbl = DocKey_hash x ?k mod ht_size ht"
    and bl: "bucketNum hbl < length (ht_values ht)"
    and fc: "foundIn (bucketNum hbl) ?chain (committedOf ?k ?chain) c"
    and fp: "foundIn (bucketNum hbl) ?chain (pendingOf ?k ?chain) p"
    by blast+
  note fi = Inr [unfolded rh h]
  show ?thesis
  proof (cases p)
    case (Some q)
    from foundIn_Some [OF fp [unfolded Some] bl] obtain v where
      d: "deref ht q = Some v" and s: "pendingOf ?k ?chain = [v]" by blast
    have "v \<in> set (pendingOf ?k ?chain)" by (simp add: s)
    then have pv: "isPending v" by (simp add: pendingOf_def)
    have "keepsInv x (unlocked_updateStoredValue x ht hbl q itm)"
      using d pv by (intro update_keeps [OF assms]) auto
    then have "keepsInv x (case unlocked_updateStoredValue x ht hbl q itm of
                  Inl e \<Rightarrow> Inl e
                | Inr ((status, sv), ht1) \<Rightarrow> Inr (status, ht1))"
      by (rule keepsInv_bind) (simp split: prod.splits)
    then show ?thesis
      using fi Some by (simp add: HashTable_set_def findForWrite_def)
  next
    case None
    from foundIn_None [OF fp [unfolded None]] have pe: "pendingOf ?k ?chain = []" .
    show ?thesis
    proof (cases c)
      case (Some q)
      from foundIn_Some [OF fc [unfolded Some] bl] obtain v where
        d: "deref ht q = Some v" and s: "committedOf ?k ?chain = [v]" by blast
      have "keepsInv x (unlocked_updateStoredValue x ht hbl q itm)"
        using pe b by (intro update_keeps [OF assms]) (simp add: addNewAllowed_def)
      then have "keepsInv x (case unlocked_updateStoredValue x ht hbl q itm of
                  Inl e \<Rightarrow> Inl e
                | Inr ((status, sv), ht1) \<Rightarrow> Inr (status, ht1))"
        by (rule keepsInv_bind) (simp split: prod.splits)
      then show ?thesis
        using fi None Some d by (simp add: HashTable_set_def findForWrite_def withSV_def)
    next
      case cn: None
      from foundIn_None [OF fc [unfolded cn]] have ce: "committedOf ?k ?chain = []" .
      have "keepsInv x (unlocked_addNewStoredValue x ht hbl itm)"
        using pe ce b by (intro addNew_keeps [OF assms]) (simp add: addNewAllowed_def)
      then have "keepsInv x (case unlocked_addNewStoredValue x ht hbl itm of
                  Inl e \<Rightarrow> Inl e
                | Inr (sv, ht1) \<Rightarrow> Inr (WasClean, ht1))"
        by (rule keepsInv_bind) simp
      then show ?thesis
        using fi None cn by (simp add: HashTable_set_def findForWrite_def)
    qed
  qed
qed

lemma finish_keeps:
  assumes "tableInv x h" and "externalsKeepIdentity x"
  shows "keepsInv x (insertFromWarmup_finish x h hbl p eject meta policy)"
  unfolding insertFromWarmup_finish_def
proof (rule keepsInv_withSV)
  fix v assume d: "deref h p = Some v"
  have t: "tableInv x (storeSV h p (v\<lparr> dirty := False \<rparr>))"
    by (intro tableInv_storeSV [OF assms(1) d]) simp_all
  from eject_keeps [OF t assms(2)]
  have "keepsInv x (case unlocked_ejectItem x (storeSV h p (v\<lparr> dirty := False \<rparr>)) hbl (Some p) policy of
                  Inl e \<Rightarrow> Inl e
                | Inr (ejected, ht2) \<Rightarrow> Inr (NotFound, ht2))"
    by (rule keepsInv_bind) simp
  with t show "keepsInv x (let ht1 = storeSV h p (v\<lparr> dirty := False \<rparr>)
       in if eject \<and> \<not> meta
          then (case unlocked_ejectItem x ht1 hbl (Some p) policy of
                  Inl e \<Rightarrow> Inl e
                | Inr (ejected, ht2) \<Rightarrow> Inr (NotFound, ht2))
          else Inr (NotFound, ht1))"
    by (simp add: Let_def)
qed

lemma restore_keeps:
  assumes "tableInv x h" and "externalsKeepIdentity x"
  shows "keepsInv x (insertFromWarmup_restore x h hbl p itm eject meta policy)"
  unfolding insertFromWarmup_restore_def
proof (rule keepsInv_withSV)
  fix v assume d: "deref h p = Some v"
  have "keepsInv x (case unlocked_restoreValue x h (htLock hbl) itm p of
               Inl e \<Rightarrow> Inl e
             | Inr (restored, ht1) \<Rightarrow>
                 if restored
                 then insertFromWarmup_finish x ht1 hbl p eject meta policy
                 else Inl (expects_failure, ht1))"
    using restoreValue_keeps [OF assms]
    by (rule keepsInv_bind) (simp add: finish_keeps assms(2))
  then show "keepsInv x (if \<not> resident v
       then (case unlocked_restoreValue x h (htLock hbl) itm p of
               Inl e \<Rightarrow> Inl e
             | Inr (restored, ht1) \<Rightarrow>
                 if restored
                 then insertFromWarmup_finish x ht1 hbl p eject meta policy
                 else Inl (expects_failure, ht1))
       else insertFromWarmup_finish x h hbl p eject meta policy)"
    using finish_keeps [OF assms] by simp
qed

lemma warmup_keeps:
  assumes "tableInv x ht" and "externalsKeepIdentity x"
  shows "keepsInv x (insertFromWarmup x ht itm eject meta policy)"
proof (cases "findInner x ht (item_key itm)")
  case (Inl eh)
  obtain e h where "eh = (e, h)" by (cases eh)
  with Inl findInner_Inl [of x ht "item_key itm" e h] assms(1)
  show ?thesis by (simp add: insertFromWarmup_def)
next
  case (Inr rh)
  obtain hbl c p h where rh: "rh = ((hbl, c, p), h)" by (cases rh) auto
  let ?k = "item_key itm"
  let ?chain = "ht_values ht ! bucketNum hbl"
  from findInner_Inr [OF Inr [unfolded rh]]
  have h: "h = ht" and a: "activeState ht" and lk: "htLock hbl"
    and b: "bucketNum hbl = DocKey_hash x ?k mod ht_size ht"
    and bl: "bucketNum hbl < length (ht_values ht)"
    and fc: "foundIn (bucketNum hbl) ?chain (committedOf ?k ?chain) c"
    and fp: "foundIn (bucketNum hbl) ?chain (pendingOf ?k ?chain) p"
    by blast+
  note fi = Inr [unfolded rh h]
  define m where "m = (if Item_isCommitted itm then c else p)"
  have fm: "foundIn (bucketNum hbl) ?chain
      (if Item_isCommitted itm then committedOf ?k ?chain else pendingOf ?k ?chain) m"
    using fc fp by (simp add: m_def)
  show ?thesis
  proof (cases m)
    case None
    from foundIn_None [OF fm [unfolded None]]
    have al: "addNewAllowed x ht hbl itm"
      using b by (auto simp: addNewAllowed_def Item_isCommitted_def Item_isPending_def
          split: if_splits)
    have "keepsInv x (case unlocked_addNewStoredValue x ht hbl itm of
                  Inl e \<Rightarrow> Inl e
                | Inr (p, ht1) \<Rightarrow> withSV ht1 p (\<lambda>v.
                    let (v1, ht2) =
                          (if meta
                           then (let preProps = prologue x (Some v);
                                     w = SV_markNotResident x v
                                 in (w, updateStats x preProps (Some w) (storeSV ht1 p w)))
                           else (v, ht1));
                        ht3 = storeSV ht2 p (v1\<lparr> newCacheItem := False \<rparr>)
                    in insertFromWarmup_finish x ht3 hbl p eject meta policy))"
    proof (rule keepsInv_bind [OF addNew_keeps [OF assms al]])
      fix q h1 assume t1: "tableInv x h1"
      show "keepsInv x (withSV h1 q (\<lambda>v.
                    let (v1, ht2) =
                          (if meta
                           then (let preProps = prologue x (Some v);
                                     w = SV_markNotResident x v
                                 in (w, updateStats x preProps (Some w) (storeSV h1 q w)))
                           else (v, h1));
                        ht3 = storeSV ht2 q (v1\<lparr> newCacheItem := False \<rparr>)
                    in insertFromWarmup_finish x ht3 hbl q eject meta policy))"
      proof (rule keepsInv_withSV)
        fix v assume d: "deref h1 q = Some v"
        let ?w = "SV_markNotResident x v"
        have t2: "tableInv x (storeSV h1 q ?w)"
          using ext_facts(7,8) [OF assms(2)] by (intro tableInv_storeSV [OF t1 d]) simp_all
        have d2: "deref (storeSV h1 q ?w) q = Some ?w" using d by (rule deref_storeSV)
        have t3: "tableInv x (storeSV (storeSV h1 q ?w) q (?w\<lparr> newCacheItem := False \<rparr>))"
          by (intro tableInv_storeSV [OF t2 d2]) simp_all
        have t3': "tableInv x (storeSV h1 q (v\<lparr> newCacheItem := False \<rparr>))"
          by (intro tableInv_storeSV [OF t1 d]) simp_all
        show "keepsInv x (
                    let (v1, ht2) =
                          (if meta
                           then (let preProps = prologue x (Some v);
                                     w = SV_markNotResident x v
                                 in (w, updateStats x preProps (Some w) (storeSV h1 q w)))
                           else (v, h1));
                        ht3 = storeSV ht2 q (v1\<lparr> newCacheItem := False \<rparr>)
                    in insertFromWarmup_finish x ht3 hbl q eject meta policy)"
          using t3 t3' assms(2)
          by (simp add: Let_def storeSV_updateStats finish_keeps)
      qed
    qed
    then show ?thesis using fi None by (simp add: insertFromWarmup_def m_def [symmetric])
  next
    case (Some q)
    from foundIn_Some [OF fm [unfolded Some] bl] obtain v where d: "deref ht q = Some v"
      by blast
    have t0: "tableInv x (storeSV ht q (v\<lparr> cas := item_cas itm, flags := item_flags itm,
                                      exptime := item_exptime itm,
                                      revSeqno := item_revSeqno itm \<rparr>))"
      by (intro tableInv_storeSV [OF assms(1) d]) simp_all
    show ?thesis
      using fi Some d assms t0
      by (simp add: insertFromWarmup_def m_def [symmetric] withSV_def restore_keeps)
  qed
qed

lemma step_keeps:
  assumes "step x ht ht'" and "tableInv x ht" and "externalsKeepIdentity x"
  shows "tableInv x ht'"
  using assms
proof (cases rule: step.cases)
  case (step_set itm)
  with set_keeps [OF assms(2,3), of itm] show ?thesis by (simp add: keepsInv_def)
next
  case (step_update hbl p itm)
  with update_keeps [OF assms(2,3), of p itm hbl] show ?thesis by (simp add: keepsInv_def)
next
  case (step_addNew hbl itm)
  with addNew_keeps [OF assms(2,3), of hbl itm] show ?thesis by (simp add: keepsInv_def)
next
  case (step_softDelete hbl p om ds)
  with softDelete_keeps [OF assms(2,3), of hbl p om ds] show ?thesis by (simp add: keepsInv_def)
next
  case (step_release_key hbl k)
  with release_inner_keeps [OF assms(2)] show ?thesis
    by (simp add: keepsInv_def unlocked_release_key_def)
next
  case (step_release_ptr hbl vptr)
  with release_inner_keeps [OF assms(2)] show ?thesis
    by (simp add: keepsInv_def unlocked_release_ptr_def)
next
  case (step_del_key hbl k)
  with release_inner_keeps [OF assms(2), of hbl "\<lambda>i v. hasKey v k"]
    keepsInv_dropReleased [of x "unlocked_release_key x ht hbl k"]
  show ?thesis by (simp add: keepsInv_def unlocked_release_key_def unlocked_del_key_def)
next
  case (step_del_ptr hbl vptr)
  with release_inner_keeps [OF assms(2), of hbl "\<lambda>i v. Some (bucketNum hbl, i) = vptr"]
    keepsInv_dropReleased [of x "unlocked_release_ptr x ht hbl vptr"]
  show ?thesis by (simp add: keepsInv_def unlocked_release_ptr_def unlocked_del_ptr_def)
next
  case (step_resize n)
  with resize_keeps [OF assms(2), of n] show ?thesis by (simp add: keepsInv_def)
next
  case step_resize_noarg
  with resize_keeps [OF assms(2)] show ?thesis by (simp add: keepsInv_def resize_noarg_def)
next
  case (step_ejectItem hbl vptr policy)
  with eject_keeps [OF assms(2,3), of hbl vptr policy] show ?thesis by (simp add: keepsInv_def)
next
  case (step_insertFromWarmup itm e m policy)
  with warmup_keeps [OF assms(2,3), of itm e m policy] show ?thesis by (simp add: keepsInv_def)
next
  case (step_restoreValue l itm p)
  with restoreValue_keeps [OF assms(2,3), of l itm p] show ?thesis by (simp add: keepsInv_def)
next
  case (step_restoreMeta l itm p)
  with restoreMeta_keeps [OF assms(2,3), of l itm p] show ?thesis by (simp add: keepsInv_def)
qed

lemma reachable_inv:
  "reachable x ht \<Longrightarrow> externalsKeepIdentity x \<Longrightarrow> tableInv x ht"
  by (induction rule: reachable.induct) (auto intro: tableInv_new step_keeps)

text \<open>
  C1 (as amended). Let the mutators of StoredValue keep key and category and the
  factory give the item's key and category. In every table reachable from a new one by
  \<open>set\<close>, \<open>unlocked_updateStoredValue\<close>, \<open>unlocked_addNewStoredValue\<close>,
  \<open>unlocked_softDelete\<close>, \<open>unlocked_release\<close>, \<open>unlocked_del\<close>, \<open>resize\<close>,
  \<open>unlocked_ejectItem\<close>, \<open>insertFromWarmup\<close>, \<open>unlocked_restoreValue\<close> and
  \<open>unlocked_restoreMeta\<close>, where \<open>unlocked_addNewStoredValue\<close> (called directly, or by
  \<open>unlocked_updateStoredValue\<close> for a pending item on a committed value) is called with
  the lock of the bucket of the item's key and when the chain has no value of the key in
  the item's category, every chain holds at most one committed and at most one pending
  value of a key, and no \<open>Expects\<close> of \<open>findInner\<close> fails.
\<close>

theorem dual_entry_unique_reachable:
  assumes "externalsKeepIdentity x" and "reachable x ht"
  shows "dualEntryUnique ht \<and> (\<forall>k h. findInner x ht k \<noteq> Inl (expects_failure, h))"
proof
  from reachable_inv [OF assms(2,1)] have inv: "tableInv x ht" .
  then show u: "dualEntryUnique ht" by (simp add: tableInv_def)
  show "\<forall>k h. findInner x ht k \<noteq> Inl (expects_failure, h)"
  proof (intro allI notI)
    fix k h assume f: "findInner x ht k = Inl (expects_failure, h)"
    let ?b = "DocKey_hash x k mod ht_size ht"
    from f have bl: "?b < length (ht_values ht)"
      and sc: "findInner_scan k (ht_values ht ! ?b) 0 None None = None"
      by (auto simp: findInner_def getLockedBucket_def getBucketForHash_def
          split: if_splits option.splits)
    from u bl have "chainUnique (ht_values ht ! ?b)" by (simp add: dualEntryUnique_def)
    with sc scan_fails [of k "ht_values ht ! ?b" 0 None None] show False
      by (simp add: chainUnique_def)
  qed
qed

lemma simpleExternals_keep: "externalsKeepIdentity simpleExternals"
  by (simp add: externalsKeepIdentity_def keepsIdentity_def simpleExternals_def isPending_def
      Item_isPending_def)

lemma sample_items:
  "item_key (sampleItem c val n) = sampleKey"
  "Item_isPending (sampleItem c val n) = pendingState c"
  "Item_isCommitted (sampleItem c val n) = (\<not> pendingState c)"
  "valFact simpleExternals (sampleItem CommittedViaMutation ''1'' 10) = sampleCommitted"
  "valFact simpleExternals (sampleItem Pending ''2'' 11) = samplePending"
  by (simp_all add: sampleItem_def Item_isPending_def Item_isCommitted_def sampleCommitted_def
      samplePending_def)

lemma sampleNew_fields:
  "activeState sampleNew" "ht_size sampleNew = 3" "ht_values sampleNew = [[], [], []]"
  by (simp_all add: sampleNew_def newHashTable_def numeral_3_eq_3)

lemma sampleNew_reachable: "reachable simpleExternals sampleNew"
  unfolding sampleNew_def by (rule reachable_new)

text \<open>
  Two calls of \<open>unlocked_addNewStoredValue\<close> with the same committed item on a new table
  leave two committed values of the key in one chain, and the next \<open>findInner\<close> of the key
  fails its \<open>Expects\<close>.
\<close>

theorem dual_entry_addNew_counterexample:
  "(case unlocked_addNewStoredValue simpleExternals sampleNew sampleLock
          (sampleItem CommittedViaMutation ''1'' 10) of
      Inl e \<Rightarrow> False
    | Inr (p1, ht1) \<Rightarrow>
        (case unlocked_addNewStoredValue simpleExternals ht1 sampleLock
                (sampleItem CommittedViaMutation ''1'' 10) of
           Inl e \<Rightarrow> False
         | Inr (p2, ht2) \<Rightarrow>
             ht_values ht2 = [[], [sampleCommitted, sampleCommitted], []]
             \<and> length (committedOf sampleKey (ht_values ht2 ! 1)) = 2
             \<and> \<not> dualEntryUnique ht2
             \<and> findInner simpleExternals ht2 sampleKey = Inl (expects_failure, ht2)))"
proof -
  let ?i = "sampleItem CommittedViaMutation ''1'' 10"
  let ?t0 = "sampleNew"
  let ?t1 = "(updateStats simpleExternals (prologue simpleExternals None) (Some sampleCommitted) ?t0)
            \<lparr> ht_values := [[], [sampleCommitted], []] \<rparr>"
  let ?t2 = "(updateStats simpleExternals (prologue simpleExternals None) (Some sampleCommitted) ?t1)
            \<lparr> ht_values := [[], [sampleCommitted, sampleCommitted], []] \<rparr>"
  have l: "htLock sampleLock" "bucketNum sampleLock = 1" by (simp_all add: sampleLock_def)
  have a1: "unlocked_addNewStoredValue simpleExternals ?t0 sampleLock ?i = Inr ((1, 0), ?t1)"
    using addNew_ok [of sampleLock ?t0 simpleExternals ?i]
    by (simp add: l sampleNew_fields sample_items)
  have a2: "unlocked_addNewStoredValue simpleExternals ?t1 sampleLock ?i = Inr ((1, 0), ?t2)"
    using addNew_ok [of sampleLock ?t1 simpleExternals ?i]
    by (simp add: l sampleNew_fields sample_items)
  have c2: "length (committedOf sampleKey [sampleCommitted, sampleCommitted]) = 2"
    by (simp add: hasKey_def sample_facts)
  have nu: "\<not> dualEntryUnique ?t2"
  proof
    assume "dualEntryUnique ?t2"
    then have "chainUnique [sampleCommitted, sampleCommitted]" by (simp add: dualEntryUnique_def)
    then have "length (committedOf sampleKey [sampleCommitted, sampleCommitted]) \<le> 1"
      by (simp only: chainUnique_def)
    with c2 show False by simp
  qed
  have sc: "findInner_scan sampleKey [sampleCommitted, sampleCommitted] 0 None None = None"
    by (simp add: hasKey_def sample_facts)
  have fi: "findInner simpleExternals ?t2 sampleKey = Inl (expects_failure, ?t2)"
    by (simp add: findInner_def getLockedBucket_def getBucketForHash_def sample_facts
        sampleNew_fields hasKey_def)
  show ?thesis
    unfolding a1 using c2 nu fi by (simp add: a2)
qed

theorem dual_entry_unique_reachable_witness:
  "externalsKeepIdentity simpleExternals
   \<and> (\<exists>s1 t1 s2 t2.
        HashTable_set simpleExternals sampleNew
          (sampleItem CommittedViaMutation ''1'' 10) = Inr (s1, t1)
      \<and> HashTable_set simpleExternals t1 (sampleItem Pending ''2'' 11) = Inr (s2, t2)
      \<and> reachable simpleExternals t2
      \<and> ht_values t2 = [[], [samplePending, sampleCommitted], []]
      \<and> dualEntryUnique t2
      \<and> (\<forall>k h. findInner simpleExternals t2 k \<noteq> Inl (expects_failure, h)))"
proof -
  let ?i = "sampleItem CommittedViaMutation ''1'' 10"
  let ?j = "sampleItem Pending ''2'' 11"
  let ?t0 = "sampleNew"
  let ?t1 = "(updateStats simpleExternals (prologue simpleExternals None) (Some sampleCommitted) ?t0)
            \<lparr> ht_values := [[], [sampleCommitted], []] \<rparr>"
  let ?t2 = "(updateStats simpleExternals (prologue simpleExternals None) (Some samplePending) ?t1)
            \<lparr> ht_values := [[], [samplePending, sampleCommitted], []] \<rparr>"
  have l: "htLock \<lparr> htLock = True, bucketNum = Suc 0 \<rparr>" by simp
  have a1: "unlocked_addNewStoredValue simpleExternals ?t0 \<lparr> htLock = True, bucketNum = Suc 0 \<rparr> ?i
      = Inr ((Suc 0, 0), ?t1)"
    using addNew_ok [of "\<lparr> htLock = True, bucketNum = Suc 0 \<rparr>" ?t0 simpleExternals ?i]
    by (simp add: sampleNew_fields sample_items)
  have a2: "unlocked_addNewStoredValue simpleExternals ?t1 \<lparr> htLock = True, bucketNum = Suc 0 \<rparr> ?j
      = Inr ((Suc 0, 0), ?t2)"
    using addNew_ok [of "\<lparr> htLock = True, bucketNum = Suc 0 \<rparr>" ?t1 simpleExternals ?j]
    by (simp add: sampleNew_fields sample_items)
  have s1: "HashTable_set simpleExternals ?t0 ?i = Inr (WasClean, ?t1)"
    by (simp add: HashTable_set_def findForWrite_def findInner_def getLockedBucket_def
        getBucketForHash_def sample_facts sample_items sampleNew_fields a1)
  have d: "deref ?t1 (Suc 0, 0) = Some sampleCommitted" by (simp add: deref_def)
  have cm: "committed sampleCommitted = CommittedViaMutation" by (simp add: sample_defs)
  have s2: "HashTable_set simpleExternals ?t1 ?j = Inr (WasClean, ?t2)"
    by (simp add: HashTable_set_def findForWrite_def findInner_def getLockedBucket_def
        getBucketForHash_def sample_facts sample_items sampleNew_fields hasKey_def withSV_def d
        unlocked_updateStoredValue_def cm a2)
  have r0: "reachable simpleExternals ?t0" by (rule sampleNew_reachable)
  have r1: "reachable simpleExternals ?t1"
    by (rule reachable_step [OF r0], rule step_set [of _ _ ?i]) (simp add: s1 outcome_def)
  have r2: "reachable simpleExternals ?t2"
    by (rule reachable_step [OF r1], rule step_set [of _ _ ?j]) (simp add: s2 outcome_def)
  from dual_entry_unique_reachable [OF simpleExternals_keep r2]
  have "dualEntryUnique ?t2 \<and> (\<forall>k h. findInner simpleExternals ?t2 k \<noteq> Inl (expects_failure, h))" .
  moreover have "ht_values ?t2 = [[], [samplePending, sampleCommitted], []]" by simp
  ultimately show ?thesis using simpleExternals_keep s1 s2 r2 by blast
qed

end
